theory Spec2Isabelle
  imports Main "HOL-Library.Word"
begin

unbundle bit_operations_syntax

section \<open>Configuration constants (checkSensor.h)\<close>

text \<open>
  The macros of checkSensor.h carry the suffix \<open>u\<close>: they are values of type
  \<open>unsigned int\<close>, 32 bits wide on the target, and \<open>/\<close> on them is the
  truncating unsigned division, which is \<open>div\<close> on words.
\<close>

definition ALL_SENSORS :: "32 word" where
  "ALL_SENSORS = 0xffffffff"

definition STUCK_SENSOR_TIMEOUT_MSEC :: "32 word" where
  "STUCK_SENSOR_TIMEOUT_MSEC = 6000"

definition NO_MANS_LAND_TIMEOUT_MSEC :: "32 word" where
  "NO_MANS_LAND_TIMEOUT_MSEC = 3000"

definition HYPER_EVENT_FTH_MULTIPLIER :: "32 word" where
  "HYPER_EVENT_FTH_MULTIPLIER = 2"

definition CAPSENSE_TOTAL_SCAN_TIME_MSEC :: "32 word" where
  "CAPSENSE_TOTAL_SCAN_TIME_MSEC = 10"

definition STUCK_SENSOR_COUNT :: "32 word" where
  "STUCK_SENSOR_COUNT = STUCK_SENSOR_TIMEOUT_MSEC div CAPSENSE_TOTAL_SCAN_TIME_MSEC"

definition NO_MANS_LAND_COUNT :: "32 word" where
  "NO_MANS_LAND_COUNT = NO_MANS_LAND_TIMEOUT_MSEC div CAPSENSE_TOTAL_SCAN_TIME_MSEC"

section \<open>The data of the sensing library read by checkSensor\<close>

text \<open>
  Modelled from the spec: the structures \<open>cy_stc_capsense_sensor_context_t\<close>,
  \<open>cy_stc_capsense_widget_context_t\<close> and \<open>cy_stc_capsense_widget_config_t\<close> are
  declared by the sensing library (cy_pdl.h, cycfg_capsense.h), whose headers are not
  among the sources. Only the fields checkSensor reads are kept: the signal delta
  \<open>diff\<close> and the \<open>status\<close> byte of a sensor, the three thresholds of a widget and a
  widget's number of sensors. The numeric fields are unsigned and at most 16 bits wide,
  so they are 16-bit words here (a narrower field embeds); \<open>status\<close> is a byte.
\<close>

record sensor_context =
  diff :: "16 word"
  status :: "8 word"

record widget_context =
  fingerTh :: "16 word"
  noiseTh :: "16 word"
  hysteresis :: "16 word"

record widget_config =
  numSns :: "16 word"

text \<open>
  Modelled from the spec: the touch bit of the status byte, a macro of the sensing
  library (bit 0 of \<open>status\<close>).
\<close>

definition CY_CAPSENSE_SNS_TOUCH_STATUS_MASK :: "8 word" where
  "CY_CAPSENSE_SNS_TOUCH_STATUS_MASK = 0x01"

text \<open>
  The three global arrays the function walks: \<open>cy_capsense_context.ptrWdConfig\<close>
  (widget configurations in flash), \<open>cy_capsense_tuner.widgetContext\<close> and
  \<open>cy_capsense_tuner.sensorContext\<close>. A pointer into one of them is the offset of the
  element it points to.
\<close>

record capsense =
  wdConfig :: "widget_config list"
  widgetContext :: "widget_context list"
  sensorContext :: "sensor_context list"

text \<open>
  The two \<open>static uint32_t\<close> arrays of checkSensor. They keep their contents from one
  call to the next and are zero when the program starts.
\<close>

record counters =
  noMansLandCounter :: "32 word list"
  stuckCounter :: "32 word list"

text \<open>
  The variables of one call: the two static arrays, the local \<open>result\<close> and
  \<open>sensorIndex\<close>, the pointers \<open>ptrWdContext\<close> and \<open>ptrSensors\<close>, and the calls of
  \<open>Cy_CapSense_InitializeSensorBaseline\<close> made so far, oldest first, each with its
  arguments \<open>(widgetID, snsNum)\<close>.

  \<open>sensorIndex\<close> is a \<open>uint32_t\<close>; it is a natural number here because it cannot wrap:
  it is the operand of a shift on every iteration, and the model stops at a shift by 32
  or more.
\<close>

record locals = counters +
  result :: "32 word"
  sensorIndex :: nat
  ptrWdContext :: nat
  ptrSensors :: nat
  baselineResets :: "(8 word \<times> 16 word) list"

section \<open>checkSensor\<close>

text \<open>
  Modelled from the spec: \<open>Cy_CapSense_InitializeSensorBaseline\<close> belongs to the sensing
  library. It re-anchors the baseline of one sensor; it does not write the signal delta,
  the status or a threshold, which are all that checkSensor reads. The model records the
  call.
\<close>

definition Cy_CapSense_InitializeSensorBaseline :: "8 word \<Rightarrow> 16 word \<Rightarrow> locals \<Rightarrow> locals" where
  "Cy_CapSense_InitializeSensorBaseline widgetID snsNum st =
     st\<lparr>baselineResets := baselineResets st @ [(widgetID, snsNum)]\<rparr>"

text \<open>
  The three conditions, as C evaluates them.
  \<^item> \<open>diff > HYPER_EVENT_FTH_MULTIPLIER * fingerTh\<close>: the multiplier is unsigned, so both
    operands are converted to 32-bit unsigned values; the product is below \<open>2^17\<close>.
  \<^item> \<open>diff > noiseTh && diff < fingerTh + hysteresis\<close>: the operands are promoted to
    \<open>int\<close>; the sum is below \<open>2^17\<close> and cannot overflow.
  \<^item> \<open>0 != (status & CY_CAPSENSE_SNS_TOUCH_STATUS_MASK)\<close>.
\<close>

definition hyperEvent :: "widget_context \<Rightarrow> sensor_context \<Rightarrow> bool" where
  "hyperEvent w s \<longleftrightarrow>
     (ucast (diff s) :: 32 word) > HYPER_EVENT_FTH_MULTIPLIER * ucast (fingerTh w)"

definition inNoMansLand :: "widget_context \<Rightarrow> sensor_context \<Rightarrow> bool" where
  "inNoMansLand w s \<longleftrightarrow>
     uint (diff s) > uint (noiseTh w) \<and>
     uint (diff s) < uint (fingerTh w) + uint (hysteresis w)"

definition touched :: "sensor_context \<Rightarrow> bool" where
  "touched s \<longleftrightarrow> status s AND CY_CAPSENSE_SNS_TOUCH_STATUS_MASK \<noteq> 0"

text \<open>Lines 90-96: the hyper event test.\<close>

definition testHyperEvent ::
  "bool \<Rightarrow> widget_context \<Rightarrow> sensor_context \<Rightarrow> 8 word \<Rightarrow> 16 word \<Rightarrow> locals \<Rightarrow> locals" where
  "testHyperEvent resetBaseline w s widgetID snsNum st =
     (if hyperEvent w s then
        (let st1 = (if resetBaseline
                    then Cy_CapSense_InitializeSensorBaseline widgetID snsNum st else st)
         in st1\<lparr>result := result st1 OR push_bit (sensorIndex st1) 1\<rparr>)
      else st)"

text \<open>Lines 98-110: the no man's land test.\<close>

definition testNoMansLand ::
  "bool \<Rightarrow> widget_context \<Rightarrow> sensor_context \<Rightarrow> 8 word \<Rightarrow> 16 word \<Rightarrow> locals \<Rightarrow> locals" where
  "testNoMansLand resetBaseline w s widgetID snsNum st =
     (if inNoMansLand w s then
        (let i = sensorIndex st;
             st1 = st\<lparr>noMansLandCounter := (noMansLandCounter st)[i := noMansLandCounter st ! i + 1]\<rparr>
         in if noMansLandCounter st1 ! i > NO_MANS_LAND_COUNT then
              (let st2 = (if resetBaseline
                          then Cy_CapSense_InitializeSensorBaseline widgetID snsNum st1 else st1);
                   st3 = st2\<lparr>result := result st2 OR push_bit i 1\<rparr>
               in st3\<lparr>noMansLandCounter := (noMansLandCounter st3)[i := 0]\<rparr>)
            else st1)
      else st)"

text \<open>Lines 112-123: the stuck sensor test.\<close>

definition testStuckSensor ::
  "bool \<Rightarrow> sensor_context \<Rightarrow> 8 word \<Rightarrow> 16 word \<Rightarrow> locals \<Rightarrow> locals" where
  "testStuckSensor resetBaseline s widgetID snsNum st =
     (if touched s then
        (let i = sensorIndex st;
             st1 = st\<lparr>stuckCounter := (stuckCounter st)[i := stuckCounter st ! i + 1]\<rparr>
         in if stuckCounter st1 ! i > STUCK_SENSOR_COUNT then
              (let st2 = (if resetBaseline
                          then Cy_CapSense_InitializeSensorBaseline widgetID snsNum st1 else st1);
                   st3 = st2\<lparr>result := result st2 OR push_bit i 1\<rparr>
               in st3\<lparr>stuckCounter := (stuckCounter st3)[i := 0]\<rparr>)
            else st1)
      else st)"

text \<open>Lines 127-128: \<open>ptrSensors++; sensorIndex++\<close>.\<close>

definition nextSensor :: "locals \<Rightarrow> locals" where
  "nextSensor st = st\<lparr>ptrSensors := ptrSensors st + 1, sensorIndex := sensorIndex st + 1\<rparr>"

text \<open>
  Lines 88-128, the body of the inner loop. \<open>None\<close> stands for undefined behaviour of
  the C program: a shift \<open>1 << sensorIndex\<close> by 32 or more, or an access outside one of
  the arrays. The accesses of a selected sensor are checked together, before the first
  test. \<open>1 << 31\<close> is taken as the compiler computes it, the mask with bit 31 set.
\<close>

definition sensorBody ::
  "capsense \<Rightarrow> 32 word \<Rightarrow> bool \<Rightarrow> 8 word \<Rightarrow> 16 word \<Rightarrow> locals \<Rightarrow> locals option" where
  "sensorBody cs sensorMask resetBaseline widgetID snsNum st =
     (if 32 \<le> sensorIndex st then None
      else if sensorMask AND push_bit (sensorIndex st) 1 \<noteq> 0 then
        (if ptrSensors st < length (sensorContext cs) \<and>
            ptrWdContext st < length (widgetContext cs) \<and>
            sensorIndex st < length (noMansLandCounter st) \<and>
            sensorIndex st < length (stuckCounter st)
         then
           (let w = widgetContext cs ! ptrWdContext st;
                s = sensorContext cs ! ptrSensors st
            in Some (nextSensor
                 (testStuckSensor resetBaseline s widgetID snsNum
                   (testNoMansLand resetBaseline w s widgetID snsNum
                     (testHyperEvent resetBaseline w s widgetID snsNum st)))))
         else None)
      else Some (nextSensor st))"

text \<open>
  Line 86: \<open>for(uint16_t snsNum = 0; snsNum < ptrWdConfig->numSns; snsNum++)\<close>;
  \<open>n\<close> is \<open>ptrWdConfig->numSns\<close>, which the loop does not change.
\<close>

function snsLoop ::
  "capsense \<Rightarrow> 32 word \<Rightarrow> bool \<Rightarrow> 8 word \<Rightarrow> 16 word \<Rightarrow> 16 word \<Rightarrow> locals \<Rightarrow> locals option" where
  "snsLoop cs sensorMask resetBaseline widgetID n snsNum st =
     (if snsNum < n then
        (case sensorBody cs sensorMask resetBaseline widgetID snsNum st of
           None \<Rightarrow> None
         | Some st' \<Rightarrow> snsLoop cs sensorMask resetBaseline widgetID n (snsNum + 1) st')
      else Some st)"
  by pat_completeness auto
termination
proof (relation "measure (\<lambda>(cs, sensorMask, resetBaseline, widgetID, n, snsNum, st). unat n - unat snsNum)")
  fix n snsNum :: "16 word" and cs :: capsense and sensorMask :: "32 word"
    and resetBaseline :: bool and widgetID :: "8 word" and st x2 :: locals
  assume "snsNum < n"
  then have "unat n - unat (snsNum + 1) < unat n - unat snsNum"
    by unat_arith
  then show "((cs, sensorMask, resetBaseline, widgetID, n, snsNum + 1, x2),
              (cs, sensorMask, resetBaseline, widgetID, n, snsNum, st))
      \<in> measure (\<lambda>(cs, sensorMask, resetBaseline, widgetID, n, snsNum, st). unat n - unat snsNum)"
    by simp
qed simp

text \<open>
  Line 84: \<open>for(uint8_t widgetID = 0; widgetID < sizeof(widgetContext)/sizeof(...);
  widgetID++)\<close>, with \<open>ptrWdConfig++\<close> (line 131) at the end of each round.
  \<open>ptrWdConfig\<close> is dereferenced by the inner loop's condition in every round, so a
  round with \<open>ptrWdConfig\<close> past the end of the array is undefined. \<open>widgetID\<close> wraps
  at 256; \<open>ptrWdConfig\<close> does not, which is why the loop ends. Only \<open>ptrWdConfig\<close>
  moves on to the next widget: no statement of the function changes \<open>ptrWdContext\<close>
  after line 76.
\<close>

function wdLoop ::
  "capsense \<Rightarrow> 32 word \<Rightarrow> bool \<Rightarrow> 8 word \<Rightarrow> nat \<Rightarrow> locals \<Rightarrow> locals option" where
  "wdLoop cs sensorMask resetBaseline widgetID ptrWdConfig st =
     (if unat widgetID < length (widgetContext cs) then
        (if ptrWdConfig < length (wdConfig cs) then
           (case snsLoop cs sensorMask resetBaseline widgetID
                   (numSns (wdConfig cs ! ptrWdConfig)) 0 st of
              None \<Rightarrow> None
            | Some st' \<Rightarrow> wdLoop cs sensorMask resetBaseline (widgetID + 1) (ptrWdConfig + 1) st')
         else None)
      else Some st)"
  by pat_completeness auto
termination
  by (relation "measure (\<lambda>(cs, sensorMask, resetBaseline, widgetID, ptrWdConfig, st).
        length (wdConfig cs) - ptrWdConfig)") auto

text \<open>
  Lines 61-135. The function reads the sensing data \<open>cs\<close> and the static arrays \<open>c\<close>;
  it returns the mask, the static arrays as it leaves them, and the baseline resets it
  asked for.
\<close>

definition checkSensor ::
  "capsense \<Rightarrow> 32 word \<Rightarrow> bool \<Rightarrow> counters \<Rightarrow>
   (32 word \<times> counters \<times> (8 word \<times> 16 word) list) option" where
  "checkSensor cs sensorMask resetBaseline c =
     (case wdLoop cs sensorMask resetBaseline 0 0
             \<lparr>noMansLandCounter = noMansLandCounter c, stuckCounter = stuckCounter c,
              result = 0, sensorIndex = 0, ptrWdContext = 0, ptrSensors = 0,
              baselineResets = []\<rparr> of
        None \<Rightarrow> None
      | Some st \<Rightarrow>
          Some (result st,
                \<lparr>noMansLandCounter = noMansLandCounter st, stuckCounter = stuckCounter st\<rparr>,
                baselineResets st))"

section \<open>The effect of one call, sensor by sensor\<close>

text \<open>
  What the no man's land test and the stuck sensor test do to a counter \<open>c\<close>, and
  whether they report the sensor: the counter is incremented when the condition holds
  and is set back to zero when it then exceeds the count threshold.
\<close>

definition nmlTrips :: "widget_context \<Rightarrow> sensor_context \<Rightarrow> 32 word \<Rightarrow> bool" where
  "nmlTrips w s c \<longleftrightarrow> inNoMansLand w s \<and> c + 1 > NO_MANS_LAND_COUNT"

definition nmlNext :: "widget_context \<Rightarrow> sensor_context \<Rightarrow> 32 word \<Rightarrow> 32 word" where
  "nmlNext w s c =
     (if inNoMansLand w s then (if c + 1 > NO_MANS_LAND_COUNT then 0 else c + 1) else c)"

definition stuckTrips :: "sensor_context \<Rightarrow> 32 word \<Rightarrow> bool" where
  "stuckTrips s c \<longleftrightarrow> touched s \<and> c + 1 > STUCK_SENSOR_COUNT"

definition stuckNext :: "sensor_context \<Rightarrow> 32 word \<Rightarrow> 32 word" where
  "stuckNext s c =
     (if touched s then (if c + 1 > STUCK_SENSOR_COUNT then 0 else c + 1) else c)"

text \<open>The number of rules a sensor trips, given its two counters on entry.\<close>

definition tripCount :: "widget_context \<Rightarrow> sensor_context \<Rightarrow> 32 word \<Rightarrow> 32 word \<Rightarrow> nat" where
  "tripCount w s cn ck =
     (if hyperEvent w s then 1 else 0) + (if nmlTrips w s cn then 1 else 0) +
     (if stuckTrips s ck then 1 else 0)"

text \<open>
  The loop body in closed form; \<open>l\<close> is the pair \<open>(widgetID, snsNum)\<close> of the
  iteration.
\<close>

definition sensorEffect :: "capsense \<Rightarrow> 32 word \<Rightarrow> bool \<Rightarrow> 8 word \<times> 16 word \<Rightarrow> locals \<Rightarrow> locals" where
  "sensorEffect cs sensorMask resetBaseline l st =
     (let i = sensorIndex st;
          w = widgetContext cs ! ptrWdContext st;
          s = sensorContext cs ! ptrSensors st;
          cn = noMansLandCounter st ! i;
          ck = stuckCounter st ! i
      in if bit sensorMask i then
           st\<lparr>noMansLandCounter := (noMansLandCounter st)[i := nmlNext w s cn],
              stuckCounter := (stuckCounter st)[i := stuckNext s ck],
              result := (if 0 < tripCount w s cn ck then result st OR push_bit i 1 else result st),
              sensorIndex := i + 1,
              ptrSensors := ptrSensors st + 1,
              baselineResets := baselineResets st @
                (if resetBaseline then replicate (tripCount w s cn ck) l else [])\<rparr>
         else st\<lparr>sensorIndex := i + 1, ptrSensors := ptrSensors st + 1\<rparr>)"

text \<open>A loop whose body may fail, over the list of its iterations.\<close>

fun foldOpt :: "('a \<Rightarrow> 's \<Rightarrow> 's option) \<Rightarrow> 'a list \<Rightarrow> 's \<Rightarrow> 's option" where
  "foldOpt f [] st = Some st"
| "foldOpt f (x # xs) st = (case f x st of None \<Rightarrow> None | Some st' \<Rightarrow> foldOpt f xs st')"

text \<open>
  The pairs \<open>(widgetID, snsNum)\<close> in the order the two loops visit them. The sensor at
  position \<open>i\<close> of this list is the one with sensor index \<open>i\<close>.
\<close>

definition widgetSensors :: "capsense \<Rightarrow> nat \<Rightarrow> (8 word \<times> 16 word) list" where
  "widgetSensors cs k =
     map (\<lambda>j. (of_nat k, of_nat j)) [0..<unat (numSns (wdConfig cs ! k))]"

definition sensorList :: "capsense \<Rightarrow> (8 word \<times> 16 word) list" where
  "sensorList cs = concat (map (widgetSensors cs) [0..<length (wdConfig cs)])"

text \<open>
  What the generated configuration guarantees: one configuration and one context per
  widget, at most 255 widgets (\<open>widgetID\<close> is a \<open>uint8_t\<close>), the widgets' sensor
  counts add up to the number of sensor contexts, which is at most 32 (the width of the
  mask), and the two static arrays have one entry per sensor context (they are declared
  with that size).
\<close>

definition wellFormed :: "capsense \<Rightarrow> counters \<Rightarrow> bool" where
  "wellFormed cs c \<longleftrightarrow>
     length (wdConfig cs) = length (widgetContext cs) \<and>
     length (widgetContext cs) \<le> 255 \<and>
     length (sensorList cs) = length (sensorContext cs) \<and>
     length (sensorContext cs) \<le> 32 \<and>
     length (noMansLandCounter c) = length (sensorContext cs) \<and>
     length (stuckCounter c) = length (sensorContext cs)"

text \<open>
  The variables at the start of a call, and at its end when the configuration is well
  formed: every sensor of the list has gone through the loop body once, in order.
\<close>

definition initialLocals :: "counters \<Rightarrow> locals" where
  "initialLocals c =
     \<lparr>noMansLandCounter = noMansLandCounter c, stuckCounter = stuckCounter c,
      result = 0, sensorIndex = 0, ptrWdContext = 0, ptrSensors = 0,
      baselineResets = []\<rparr>"

definition finalLocals :: "capsense \<Rightarrow> 32 word \<Rightarrow> bool \<Rightarrow> counters \<Rightarrow> locals" where
  "finalLocals cs sensorMask resetBaseline c =
     fold (sensorEffect cs sensorMask resetBaseline) (sensorList cs) (initialLocals c)"

section \<open>Consecutive calls\<close>

text \<open>
  checkSensor is called once per scan. Between two calls the sensing library may change
  the sensor data, and the caller may choose another mask; the static arrays are handed
  from each call to the next. \<open>scans\<close> runs a list of calls, each given as the data
  it finds and its two arguments, and collects the returned masks.
\<close>

fun scans :: "(capsense \<times> 32 word \<times> bool) list \<Rightarrow> counters \<Rightarrow> (32 word list \<times> counters) option" where
  "scans [] c = Some ([], c)"
| "scans ((cs, sensorMask, resetBaseline) # rest) c =
     (case checkSensor cs sensorMask resetBaseline c of
        None \<Rightarrow> None
      | Some (r, c', log) \<Rightarrow>
          (case scans rest c' of
             None \<Rightarrow> None
           | Some (rs, c'') \<Rightarrow> Some (r # rs, c'')))"

text \<open>
  The data of a call with sensor \<open>i\<close> reported untouched: the touch bit of its status
  byte is cleared, everything else is as it was.
\<close>

definition reportedUntouched :: "nat \<Rightarrow> capsense \<Rightarrow> capsense" where
  "reportedUntouched i cs =
     cs\<lparr>sensorContext := (sensorContext cs)
          [i := (sensorContext cs ! i)
             \<lparr>status := status (sensorContext cs ! i) AND NOT CY_CAPSENSE_SNS_TOUCH_STATUS_MASK\<rparr>]\<rparr>"

section \<open>Example configurations\<close>

text \<open>
  The configuration of the specification's end-to-end scenario: two widgets of one
  sensor each, widget A with FT = 100, NT = 20, HYST = 10 and widget B with FT = 200,
  NT = 50, HYST = 20. \<open>twoWidgets\<close> leaves the thresholds and the sensor data open.
\<close>

definition widgetA :: widget_context where
  "widgetA = \<lparr>fingerTh = 100, noiseTh = 20, hysteresis = 10\<rparr>"

definition widgetB :: widget_context where
  "widgetB = \<lparr>fingerTh = 200, noiseTh = 50, hysteresis = 20\<rparr>"

definition twoWidgets ::
  "widget_context \<Rightarrow> widget_context \<Rightarrow> sensor_context \<Rightarrow> sensor_context \<Rightarrow> capsense" where
  "twoWidgets wa wb sa sb =
     \<lparr>wdConfig = [\<lparr>numSns = 1\<rparr>, \<lparr>numSns = 1\<rparr>],
      widgetContext = [wa, wb],
      sensorContext = [sa, sb]\<rparr>"

text \<open>One widget with a single sensor.\<close>

definition oneSensor :: "widget_context \<Rightarrow> sensor_context \<Rightarrow> capsense" where
  "oneSensor w s =
     \<lparr>wdConfig = [\<lparr>numSns = 1\<rparr>], widgetContext = [w], sensorContext = [s]\<rparr>"

text \<open>The static arrays of a program with \<open>n\<close> sensors when it starts.\<close>

definition zeroCounters :: "nat \<Rightarrow> counters" where
  "zeroCounters n = \<lparr>noMansLandCounter = replicate n 0, stuckCounter = replicate n 0\<rparr>"

section \<open>The loops in closed form\<close>

declare snsLoop.simps [simp del] wdLoop.simps [simp del]

subsection \<open>The loop body\<close>

lemma selected_iff: "(m AND push_bit i 1 \<noteq> 0) = bit m i" for m :: "32 word"
  by (simp add: push_bit_of_1 and_exp_eq_0_iff_not_bit)

lemma testHyperEvent_eq:
  "testHyperEvent rb w s wid sn st =
     st\<lparr>result := (if hyperEvent w s then result st OR push_bit (sensorIndex st) 1 else result st),
        baselineResets := baselineResets st @ (if rb \<and> hyperEvent w s then [(wid, sn)] else [])\<rparr>"
  by (simp add: testHyperEvent_def Cy_CapSense_InitializeSensorBaseline_def Let_def
      del: push_bit_of_1)

lemma testNoMansLand_eq:
  "sensorIndex st < length (noMansLandCounter st) \<Longrightarrow>
   testNoMansLand rb w s wid sn st =
     st\<lparr>noMansLandCounter := (noMansLandCounter st)
            [sensorIndex st := nmlNext w s (noMansLandCounter st ! sensorIndex st)],
        result := (if nmlTrips w s (noMansLandCounter st ! sensorIndex st)
                   then result st OR push_bit (sensorIndex st) 1 else result st),
        baselineResets := baselineResets st @
          (if rb \<and> nmlTrips w s (noMansLandCounter st ! sensorIndex st) then [(wid, sn)] else [])\<rparr>"
  by (simp add: testNoMansLand_def Cy_CapSense_InitializeSensorBaseline_def Let_def
      nmlNext_def nmlTrips_def del: push_bit_of_1)

lemma testStuckSensor_eq:
  "sensorIndex st < length (stuckCounter st) \<Longrightarrow>
   testStuckSensor rb s wid sn st =
     st\<lparr>stuckCounter := (stuckCounter st)
            [sensorIndex st := stuckNext s (stuckCounter st ! sensorIndex st)],
        result := (if stuckTrips s (stuckCounter st ! sensorIndex st)
                   then result st OR push_bit (sensorIndex st) 1 else result st),
        baselineResets := baselineResets st @
          (if rb \<and> stuckTrips s (stuckCounter st ! sensorIndex st) then [(wid, sn)] else [])\<rparr>"
  by (simp add: testStuckSensor_def Cy_CapSense_InitializeSensorBaseline_def Let_def
      stuckNext_def stuckTrips_def del: push_bit_of_1)

lemma sensorBody_unselected:
  assumes "sensorIndex st < 32" "\<not> bit m (sensorIndex st)"
  shows "sensorBody cs m rb w s st = Some (sensorEffect cs m rb (w, s) st)"
  using assms by (simp add: sensorBody_def sensorEffect_def selected_iff nextSensor_def Let_def del: push_bit_of_1)

lemma sensorBody_selected:
  assumes "sensorIndex st < 32" "bit m (sensorIndex st)"
    and "ptrSensors st < length (sensorContext cs)"
    and "ptrWdContext st < length (widgetContext cs)"
    and "sensorIndex st < length (noMansLandCounter st)"
    and "sensorIndex st < length (stuckCounter st)"
  shows "sensorBody cs m rb w s st = Some (sensorEffect cs m rb (w, s) st)"
  using assms
  by (simp add: sensorBody_def sensorEffect_def selected_iff nextSensor_def Let_def
      testHyperEvent_eq testNoMansLand_eq testStuckSensor_eq tripCount_def
      del: push_bit_of_1)

lemma foldOpt_append:
  "foldOpt f (xs @ ys) st = (case foldOpt f xs st of None \<Rightarrow> None | Some st' \<Rightarrow> foldOpt f ys st')"
  by (induction xs arbitrary: st) (auto split: option.splits)

lemma foldOpt_map: "foldOpt f (map g xs) st = foldOpt (\<lambda>x. f (g x)) xs st"
  by (induction xs arbitrary: st) (auto split: option.splits)

lemma foldOpt_map': "foldOpt f (map g xs) = foldOpt (\<lambda>x. f (g x)) xs"
  by (rule ext) (rule foldOpt_map)

lemma foldOpt_concat: "foldOpt f (concat xss) st = foldOpt (\<lambda>xs. foldOpt f xs) xss st"
  by (induction xss arbitrary: st) (auto simp: foldOpt_append split: option.splits)

lemma snsLoop_unroll:
  "snsLoop cs m rb wid n sn st =
     foldOpt (\<lambda>j. sensorBody cs m rb wid (of_nat j)) [unat sn..<unat n] st"
proof (induction cs m rb wid n sn st rule: snsLoop.induct)
  case (1 cs m rb wid n sn st)
  show ?case
  proof (cases "sn < n")
    case True
    then have lt: "unat sn < unat n" and suc: "unat (sn + 1) = Suc (unat sn)"
      by unat_arith+
    have "[unat sn..<unat n] = unat sn # [unat (sn + 1)..<unat n]"
      using lt suc by (simp add: upt_conv_Cons)
    then show ?thesis
      using True "1.IH" by (subst snsLoop.simps) (simp split: option.splits)
  next
    case False
    then have "unat n \<le> unat sn" by unat_arith
    then show ?thesis
      using False by (subst snsLoop.simps) simp
  qed
qed

lemma snsLoop_unroll': "snsLoop cs m rb wid n 0 =
     foldOpt (\<lambda>j. sensorBody cs m rb wid (of_nat j)) [0..<unat n]"
  using snsLoop_unroll[of cs m rb wid n 0] by (intro ext) simp

lemma wdLoop_unroll:
  assumes "length (wdConfig cs) = length (widgetContext cs)"
    and "length (widgetContext cs) \<le> 255"
    and "p \<le> length (wdConfig cs)"
  shows "wdLoop cs m rb (of_nat p) p st =
     foldOpt (\<lambda>k. snsLoop cs m rb (of_nat k) (numSns (wdConfig cs ! k)) 0)
       [p..<length (wdConfig cs)] st"
  using assms(3)
proof (induction "length (wdConfig cs) - p" arbitrary: p st)
  case 0
  then have "p = length (widgetContext cs)" using assms(1) by simp
  moreover have "unat (of_nat (length (widgetContext cs)) :: 8 word) = length (widgetContext cs)"
    using assms(2) by (simp add: unat_of_nat take_bit_nat_eq_self)
  ultimately show ?case
    using assms(1) by (subst wdLoop.simps) simp
next
  case (Suc d)
  then have lt: "p < length (wdConfig cs)" by simp
  then have u: "unat (of_nat p :: 8 word) = p"
    using assms by (simp add: unat_of_nat take_bit_nat_eq_self)
  have step: "(of_nat p :: 8 word) + 1 = of_nat (Suc p)" by simp
  have ih: "wdLoop cs m rb (of_nat (Suc p)) (Suc p) st' =
     foldOpt (\<lambda>k. snsLoop cs m rb (of_nat k) (numSns (wdConfig cs ! k)) 0)
       [Suc p..<length (wdConfig cs)] st'" for st'
    using Suc.hyps(1)[of "Suc p" st'] Suc.hyps(2) lt by simp
  have "[p..<length (wdConfig cs)] = p # [Suc p..<length (wdConfig cs)]"
    using lt by (simp add: upt_conv_Cons)
  then show ?case
    using lt u assms(1) ih
    by (subst wdLoop.simps) (simp add: step split: option.splits del: of_nat_Suc)
qed

lemma wdLoop_sensorList:
  assumes "length (wdConfig cs) = length (widgetContext cs)"
    and "length (widgetContext cs) \<le> 255"
  shows "wdLoop cs m rb 0 0 st =
     foldOpt (\<lambda>l. sensorBody cs m rb (fst l) (snd l)) (sensorList cs) st"
proof -
  have "wdLoop cs m rb 0 0 st =
     foldOpt (\<lambda>k. snsLoop cs m rb (of_nat k) (numSns (wdConfig cs ! k)) 0)
       [0..<length (wdConfig cs)] st"
    using wdLoop_unroll[OF assms, of 0 m rb st] by simp
  also have "\<dots> = foldOpt (\<lambda>l. sensorBody cs m rb (fst l) (snd l)) (sensorList cs) st"
    by (simp add: sensorList_def widgetSensors_def foldOpt_concat foldOpt_map foldOpt_map' snsLoop_unroll')
  finally show ?thesis .
qed

lemma sensorEffect_fields [simp]:
  "sensorIndex (sensorEffect cs m rb l st) = Suc (sensorIndex st)"
  "ptrSensors (sensorEffect cs m rb l st) = Suc (ptrSensors st)"
  "ptrWdContext (sensorEffect cs m rb l st) = ptrWdContext st"
  "length (noMansLandCounter (sensorEffect cs m rb l st)) = length (noMansLandCounter st)"
  "length (stuckCounter (sensorEffect cs m rb l st)) = length (stuckCounter st)"
  by (simp_all add: sensorEffect_def Let_def)

lemma sensorBody_effect:
  assumes "sensorIndex st < 32"
    and "ptrSensors st < length (sensorContext cs)"
    and "ptrWdContext st < length (widgetContext cs)"
    and "sensorIndex st < length (noMansLandCounter st)"
    and "sensorIndex st < length (stuckCounter st)"
  shows "sensorBody cs m rb w s st = Some (sensorEffect cs m rb (w, s) st)"
  using assms sensorBody_selected sensorBody_unselected by (cases "bit m (sensorIndex st)") blast+

lemma foldOpt_sensorBody:
  assumes "sensorIndex st + length ls \<le> 32"
    and "ptrSensors st + length ls \<le> length (sensorContext cs)"
    and "ls \<noteq> [] \<Longrightarrow> ptrWdContext st < length (widgetContext cs)"
    and "sensorIndex st + length ls \<le> length (noMansLandCounter st)"
    and "sensorIndex st + length ls \<le> length (stuckCounter st)"
  shows "foldOpt (\<lambda>l. sensorBody cs m rb (fst l) (snd l)) ls st =
     Some (fold (sensorEffect cs m rb) ls st)"
  using assms
proof (induction ls arbitrary: st)
  case Nil
  show ?case by simp
next
  case (Cons l ls)
  have "sensorBody cs m rb (fst l) (snd l) st = Some (sensorEffect cs m rb l st)"
    using Cons.prems sensorBody_effect[of st cs m rb "fst l" "snd l"] by simp
  moreover have "foldOpt (\<lambda>l. sensorBody cs m rb (fst l) (snd l)) ls (sensorEffect cs m rb l st) =
     Some (fold (sensorEffect cs m rb) ls (sensorEffect cs m rb l st))"
    using Cons.prems by (intro Cons.IH) simp_all
  ultimately show ?case by simp
qed

lemma fold_effect_fields [simp]:
  "sensorIndex (fold (sensorEffect cs m rb) ls st) = sensorIndex st + length ls"
  "ptrSensors (fold (sensorEffect cs m rb) ls st) = ptrSensors st + length ls"
  "ptrWdContext (fold (sensorEffect cs m rb) ls st) = ptrWdContext st"
  "length (noMansLandCounter (fold (sensorEffect cs m rb) ls st)) = length (noMansLandCounter st)"
  "length (stuckCounter (fold (sensorEffect cs m rb) ls st)) = length (stuckCounter st)"
  by (induction ls arbitrary: st; simp)+

lemma sensorEffect_nml:
  "sensorIndex st < length (noMansLandCounter st) \<Longrightarrow>
   noMansLandCounter (sensorEffect cs m rb l st) ! j =
     (if j = sensorIndex st \<and> bit m j
      then nmlNext (widgetContext cs ! ptrWdContext st) (sensorContext cs ! ptrSensors st)
             (noMansLandCounter st ! j)
      else noMansLandCounter st ! j)"
  by (auto simp: sensorEffect_def Let_def nth_list_update)

lemma sensorEffect_stuck:
  "sensorIndex st < length (stuckCounter st) \<Longrightarrow>
   stuckCounter (sensorEffect cs m rb l st) ! j =
     (if j = sensorIndex st \<and> bit m j
      then stuckNext (sensorContext cs ! ptrSensors st) (stuckCounter st ! j)
      else stuckCounter st ! j)"
  by (auto simp: sensorEffect_def Let_def nth_list_update)

lemma fold_effect_nml:
  assumes "ptrSensors st = sensorIndex st"
    and "sensorIndex st + length ls \<le> length (noMansLandCounter st)"
  shows "noMansLandCounter (fold (sensorEffect cs m rb) ls st) ! j =
     (if sensorIndex st \<le> j \<and> j < sensorIndex st + length ls \<and> bit m j
      then nmlNext (widgetContext cs ! ptrWdContext st) (sensorContext cs ! j)
             (noMansLandCounter st ! j)
      else noMansLandCounter st ! j)"
  using assms
proof (induction ls arbitrary: st)
  case Nil
  show ?case by auto
next
  case (Cons l ls)
  let ?st = "sensorEffect cs m rb l st"
  have "noMansLandCounter (fold (sensorEffect cs m rb) ls ?st) ! j =
     (if sensorIndex ?st \<le> j \<and> j < sensorIndex ?st + length ls \<and> bit m j
      then nmlNext (widgetContext cs ! ptrWdContext ?st) (sensorContext cs ! j)
             (noMansLandCounter ?st ! j)
      else noMansLandCounter ?st ! j)"
    using Cons.prems by (intro Cons.IH) simp_all
  moreover have "sensorIndex st < length (noMansLandCounter st)"
    using Cons.prems by simp
  ultimately show ?case
    using Cons.prems(1) by (cases "j = sensorIndex st") (auto simp: sensorEffect_nml)
qed

lemma fold_effect_stuck:
  assumes "ptrSensors st = sensorIndex st"
    and "sensorIndex st + length ls \<le> length (stuckCounter st)"
  shows "stuckCounter (fold (sensorEffect cs m rb) ls st) ! j =
     (if sensorIndex st \<le> j \<and> j < sensorIndex st + length ls \<and> bit m j
      then stuckNext (sensorContext cs ! j) (stuckCounter st ! j)
      else stuckCounter st ! j)"
  using assms
proof (induction ls arbitrary: st)
  case Nil
  show ?case by auto
next
  case (Cons l ls)
  let ?st = "sensorEffect cs m rb l st"
  have "stuckCounter (fold (sensorEffect cs m rb) ls ?st) ! j =
     (if sensorIndex ?st \<le> j \<and> j < sensorIndex ?st + length ls \<and> bit m j
      then stuckNext (sensorContext cs ! j) (stuckCounter ?st ! j)
      else stuckCounter ?st ! j)"
    using Cons.prems by (intro Cons.IH) simp_all
  moreover have "sensorIndex st < length (stuckCounter st)"
    using Cons.prems by simp
  ultimately show ?case
    using Cons.prems(1) by (cases "j = sensorIndex st") (auto simp: sensorEffect_stuck)
qed

lemma bit_push_bit_one: "bit (push_bit k (1 :: 32 word)) j \<longleftrightarrow> j = k \<and> k < 32"
  by (auto simp: bit_exp_iff)

lemma sensorEffect_result:
  "bit (result (sensorEffect cs m rb l st)) j \<longleftrightarrow>
     bit (result st) j \<or>
     (j = sensorIndex st \<and> bit m j \<and>
      0 < tripCount (widgetContext cs ! ptrWdContext st) (sensorContext cs ! ptrSensors st)
            (noMansLandCounter st ! j) (stuckCounter st ! j))"
  by (auto simp: sensorEffect_def Let_def bit_or_iff bit_push_bit_one
      simp del: push_bit_of_1 dest: bit_imp_le_length)

lemma fold_effect_result:
  assumes "ptrSensors st = sensorIndex st"
    and "sensorIndex st + length ls \<le> length (noMansLandCounter st)"
    and "sensorIndex st + length ls \<le> length (stuckCounter st)"
  shows "bit (result (fold (sensorEffect cs m rb) ls st)) j \<longleftrightarrow>
     bit (result st) j \<or>
     (sensorIndex st \<le> j \<and> j < sensorIndex st + length ls \<and> bit m j \<and>
      0 < tripCount (widgetContext cs ! ptrWdContext st) (sensorContext cs ! j)
            (noMansLandCounter st ! j) (stuckCounter st ! j))"
  using assms
proof (induction ls arbitrary: st)
  case Nil
  show ?case by auto
next
  case (Cons l ls)
  let ?st = "sensorEffect cs m rb l st"
  have ih: "bit (result (fold (sensorEffect cs m rb) ls ?st)) j \<longleftrightarrow>
     bit (result ?st) j \<or>
     (sensorIndex ?st \<le> j \<and> j < sensorIndex ?st + length ls \<and> bit m j \<and>
      0 < tripCount (widgetContext cs ! ptrWdContext ?st) (sensorContext cs ! j)
            (noMansLandCounter ?st ! j) (stuckCounter ?st ! j))"
    using Cons.prems by (intro Cons.IH) simp_all
  have len: "sensorIndex st < length (noMansLandCounter st)"
    "sensorIndex st < length (stuckCounter st)"
    using Cons.prems by simp_all
  show ?case
  proof (cases "j = sensorIndex st")
    case True
    then show ?thesis
      using ih Cons.prems(1) by (auto simp: sensorEffect_result)
  next
    case False
    then have "noMansLandCounter ?st ! j = noMansLandCounter st ! j"
      "stuckCounter ?st ! j = stuckCounter st ! j"
      using len by (simp_all add: sensorEffect_nml sensorEffect_stuck)
    then show ?thesis
      using ih False by (auto simp: sensorEffect_result)
  qed
qed

lemma sensorEffect_resets:
  "baselineResets (sensorEffect cs m rb l st) =
     baselineResets st @
     (if rb \<and> bit m (sensorIndex st)
      then replicate (tripCount (widgetContext cs ! ptrWdContext st)
             (sensorContext cs ! ptrSensors st)
             (noMansLandCounter st ! sensorIndex st) (stuckCounter st ! sensorIndex st)) l
      else [])"
  by (simp add: sensorEffect_def Let_def)

lemma fold_effect_resets:
  assumes "ptrSensors st = sensorIndex st"
    and "sensorIndex st + length ls \<le> length (noMansLandCounter st)"
    and "sensorIndex st + length ls \<le> length (stuckCounter st)"
  shows "baselineResets (fold (sensorEffect cs m rb) ls st) =
     baselineResets st @
     concat (map (\<lambda>j. if rb \<and> bit m (sensorIndex st + j)
                      then replicate (tripCount (widgetContext cs ! ptrWdContext st)
                             (sensorContext cs ! (sensorIndex st + j))
                             (noMansLandCounter st ! (sensorIndex st + j))
                             (stuckCounter st ! (sensorIndex st + j))) (ls ! j)
                      else []) [0..<length ls])"
  using assms
proof (induction ls arbitrary: st)
  case Nil
  show ?case by simp
next
  case (Cons l ls)
  let ?st = "sensorEffect cs m rb l st"
  have len: "sensorIndex st < length (noMansLandCounter st)"
    "sensorIndex st < length (stuckCounter st)"
    using Cons.prems by simp_all
  have same: "noMansLandCounter (sensorEffect cs m b l st) ! (Suc (sensorIndex st + j)) =
        noMansLandCounter st ! (Suc (sensorIndex st + j))"
    "stuckCounter (sensorEffect cs m b l st) ! (Suc (sensorIndex st + j)) =
        stuckCounter st ! (Suc (sensorIndex st + j))"
    for j b
    using len by (simp_all add: sensorEffect_nml sensorEffect_stuck)
  have "baselineResets (fold (sensorEffect cs m rb) ls ?st) =
     baselineResets ?st @
     concat (map (\<lambda>j. if rb \<and> bit m (sensorIndex ?st + j)
                      then replicate (tripCount (widgetContext cs ! ptrWdContext ?st)
                             (sensorContext cs ! (sensorIndex ?st + j))
                             (noMansLandCounter ?st ! (sensorIndex ?st + j))
                             (stuckCounter ?st ! (sensorIndex ?st + j))) (ls ! j)
                      else []) [0..<length ls])"
    using Cons.prems by (intro Cons.IH) simp_all
  then have ih: "baselineResets (fold (sensorEffect cs m rb) ls ?st) =
     baselineResets ?st @
     concat (map (\<lambda>j. if rb \<and> bit m (Suc (sensorIndex st + j))
                      then replicate (tripCount (widgetContext cs ! ptrWdContext st)
                             (sensorContext cs ! (Suc (sensorIndex st + j)))
                             (noMansLandCounter st ! (Suc (sensorIndex st + j)))
                             (stuckCounter st ! (Suc (sensorIndex st + j)))) (ls ! j)
                      else []) [0..<length ls])"
    by (simp add: same cong: if_cong)
  have upt: "[0..<length (l # ls)] = 0 # map Suc [0..<length ls]"
    by (simp add: upt_conv_Cons map_Suc_upt del: upt_Suc)
  have "baselineResets (fold (sensorEffect cs m rb) (l # ls) st) =
      baselineResets (fold (sensorEffect cs m rb) ls ?st)"
    by simp
  also note ih
  finally show ?case
    unfolding upt using Cons.prems(1)
    by (simp add: sensorEffect_resets o_def cong: if_cong)
qed

lemma checkSensor_final:
  assumes "wellFormed cs c"
  shows "checkSensor cs m rb c =
     Some (result (finalLocals cs m rb c),
           \<lparr>noMansLandCounter = noMansLandCounter (finalLocals cs m rb c),
            stuckCounter = stuckCounter (finalLocals cs m rb c)\<rparr>,
           baselineResets (finalLocals cs m rb c))"
proof -
  have wf: "length (wdConfig cs) = length (widgetContext cs)" "length (widgetContext cs) \<le> 255"
    "length (sensorList cs) = length (sensorContext cs)" "length (sensorContext cs) \<le> 32"
    "length (noMansLandCounter c) = length (sensorContext cs)"
    "length (stuckCounter c) = length (sensorContext cs)"
    using assms by (simp_all add: wellFormed_def)
  have ne: "widgetContext cs \<noteq> []" if "sensorList cs \<noteq> []"
    using that wf(1) by (auto simp: sensorList_def)
  have "wdLoop cs m rb 0 0 (initialLocals c) =
      foldOpt (\<lambda>l. sensorBody cs m rb (fst l) (snd l)) (sensorList cs) (initialLocals c)"
    using wf(1,2) by (rule wdLoop_sensorList)
  also have "\<dots> = Some (finalLocals cs m rb c)"
    unfolding finalLocals_def
    using wf ne by (intro foldOpt_sensorBody) (simp_all add: initialLocals_def)
  finally show ?thesis
    by (simp add: checkSensor_def initialLocals_def)
qed

lemma final_lengths:
  "length (noMansLandCounter (finalLocals cs m rb c)) = length (noMansLandCounter c)"
  "length (stuckCounter (finalLocals cs m rb c)) = length (stuckCounter c)"
  by (simp_all add: finalLocals_def initialLocals_def)

lemma final_nml:
  assumes "wellFormed cs c"
  shows "noMansLandCounter (finalLocals cs m rb c) ! j =
     (if j < length (sensorContext cs) \<and> bit m j
      then nmlNext (widgetContext cs ! 0) (sensorContext cs ! j) (noMansLandCounter c ! j)
      else noMansLandCounter c ! j)"
  using assms fold_effect_nml[of "initialLocals c" "sensorList cs" cs m rb j]
  by (simp add: finalLocals_def initialLocals_def wellFormed_def)

lemma final_stuck:
  assumes "wellFormed cs c"
  shows "stuckCounter (finalLocals cs m rb c) ! j =
     (if j < length (sensorContext cs) \<and> bit m j
      then stuckNext (sensorContext cs ! j) (stuckCounter c ! j)
      else stuckCounter c ! j)"
  using assms fold_effect_stuck[of "initialLocals c" "sensorList cs" cs m rb j]
  by (simp add: finalLocals_def initialLocals_def wellFormed_def)

lemma final_result:
  assumes "wellFormed cs c"
  shows "bit (result (finalLocals cs m rb c)) j \<longleftrightarrow>
     j < length (sensorContext cs) \<and> bit m j \<and>
     0 < tripCount (widgetContext cs ! 0) (sensorContext cs ! j)
           (noMansLandCounter c ! j) (stuckCounter c ! j)"
  using assms fold_effect_result[of "initialLocals c" "sensorList cs" cs m rb j]
  by (simp add: finalLocals_def initialLocals_def wellFormed_def)

lemma final_resets:
  assumes "wellFormed cs c"
  shows "baselineResets (finalLocals cs m rb c) =
     concat (map (\<lambda>j. if rb \<and> bit m j
                    then replicate (tripCount (widgetContext cs ! 0) (sensorContext cs ! j)
                           (noMansLandCounter c ! j) (stuckCounter c ! j)) (sensorList cs ! j)
                    else []) [0..<length (sensorContext cs)])"
  using assms fold_effect_resets[of "initialLocals c" "sensorList cs" cs m rb]
  by (simp add: finalLocals_def initialLocals_def wellFormed_def cong: if_cong)

subsection \<open>The list of sensors has no duplicates\<close>

lemma unat_of_nat_8: "k < 2 ^ 8 \<Longrightarrow> unat (of_nat k :: 8 word) = k"
  by (simp add: unat_of_nat take_bit_nat_eq_self)

lemma unat_of_nat_16: "k < 2 ^ 16 \<Longrightarrow> unat (of_nat k :: 16 word) = k"
  by (simp add: unat_of_nat take_bit_nat_eq_self)

lemma widgetSensors_distinct: "distinct (widgetSensors cs k)"
proof -
  have bound: "unat (numSns (wdConfig cs ! k)) < 2 ^ 16"
    using unsigned_less[of "numSns (wdConfig cs ! k)", where 'a = nat]
    by (simp only: len_bit0 len_num1 mult_1_right mult_2 one_add_one numeral_Bit0 [symmetric])
  have "inj_on (\<lambda>j. (of_nat k :: 8 word, of_nat j :: 16 word)) {0..<unat (numSns (wdConfig cs ! k))}"
  proof (rule inj_onI)
    fix x y
    assume x: "x \<in> {0..<unat (numSns (wdConfig cs ! k))}"
      and y: "y \<in> {0..<unat (numSns (wdConfig cs ! k))}"
      and eq: "(of_nat k :: 8 word, of_nat x :: 16 word) = (of_nat k, of_nat y)"
    have "x < unat (numSns (wdConfig cs ! k))" "y < unat (numSns (wdConfig cs ! k))"
      using x y by simp_all
    then have "x < 2 ^ 16" "y < 2 ^ 16"
      using bound by (blast intro: less_trans)+
    then have ux: "unat (of_nat x :: 16 word) = x" and uy: "unat (of_nat y :: 16 word) = y"
      by (simp_all only: unat_of_nat_16)
    have e: "(of_nat x :: 16 word) = of_nat y" using eq by (simp only: prod.inject)
    have "x = unat (of_nat x :: 16 word)" by (rule ux[symmetric])
    also have "\<dots> = unat (of_nat y :: 16 word)" by (rule arg_cong[OF e])
    also have "\<dots> = y" by (rule uy)
    finally show "x = y" .
  qed
  then show ?thesis
    by (simp add: widgetSensors_def distinct_map)
qed

lemma widgetSensors_fst: "l \<in> set (widgetSensors cs k) \<Longrightarrow> fst l = of_nat k"
  by (auto simp: widgetSensors_def)

lemma sensorList_prefix_distinct:
  "n \<le> 2 ^ 8 \<Longrightarrow> distinct (concat (map (widgetSensors cs) [0..<n]))"
proof (induction n)
  case 0
  show ?case by simp
next
  case (Suc n)
  have "l \<notin> set (widgetSensors cs n)" if "k < n" "l \<in> set (widgetSensors cs k)" for l k
  proof
    assume "l \<in> set (widgetSensors cs n)"
    then have e: "(of_nat k :: 8 word) = of_nat n"
      using that(2) widgetSensors_fst[of l cs k] widgetSensors_fst[of l cs n] by simp
    have "n < 2 ^ 8"
      using Suc.prems by (rule Suc_le_lessD)
    then have "k < 2 ^ 8" "n < 2 ^ 8"
      using that(1) by (blast intro: less_trans)+
    then have uk: "unat (of_nat k :: 8 word) = k" and un: "unat (of_nat n :: 8 word) = n"
      by (simp_all only: unat_of_nat_8)
    have "k = unat (of_nat k :: 8 word)" by (rule uk[symmetric])
    also have "\<dots> = unat (of_nat n :: 8 word)" by (rule arg_cong[OF e])
    also have "\<dots> = n" by (rule un)
    finally show False using that(1) by simp
  qed
  then have "set (concat (map (widgetSensors cs) [0..<n])) \<inter> set (widgetSensors cs n) = {}"
    by auto
  moreover have "distinct (concat (map (widgetSensors cs) [0..<n]))"
    using Suc.prems by (intro Suc.IH) (rule Suc_leD)
  ultimately show ?case
    by (simp add: widgetSensors_distinct)
qed

lemma wellFormed_distinct:
  assumes "wellFormed cs c"
  shows "distinct (sensorList cs)"
proof -
  have "length (wdConfig cs) \<le> 255"
    using assms by (simp add: wellFormed_def)
  also have "(255 :: nat) \<le> 2 ^ 8" by simp
  finally show ?thesis
    unfolding sensorList_def by (rule sensorList_prefix_distinct)
qed

subsection \<open>Auxiliary facts\<close>

lemma final_flag_independent:
  assumes "wellFormed cs c"
  shows "result (finalLocals cs m True c) = result (finalLocals cs m False c)"
    and "noMansLandCounter (finalLocals cs m True c) = noMansLandCounter (finalLocals cs m False c)"
    and "stuckCounter (finalLocals cs m True c) = stuckCounter (finalLocals cs m False c)"
proof -
  show "result (finalLocals cs m True c) = result (finalLocals cs m False c)"
    by (rule bit_eqI) (simp add: final_result[OF assms])
  show "noMansLandCounter (finalLocals cs m True c) = noMansLandCounter (finalLocals cs m False c)"
    by (rule nth_equalityI) (simp_all add: final_lengths final_nml[OF assms])
  show "stuckCounter (finalLocals cs m True c) = stuckCounter (finalLocals cs m False c)"
    by (rule nth_equalityI) (simp_all add: final_lengths final_stuck[OF assms])
qed

lemma nmlNext_bounded: "c \<le> NO_MANS_LAND_COUNT \<Longrightarrow> nmlNext w s c \<le> NO_MANS_LAND_COUNT"
  by (simp add: nmlNext_def not_less)

lemma stuckNext_bounded: "c \<le> STUCK_SENSOR_COUNT \<Longrightarrow> stuckNext s c \<le> STUCK_SENSOR_COUNT"
  by (simp add: stuckNext_def not_less)

lemma increment_exact:
  fixes c b :: "32 word"
  assumes "c \<le> b" and "b \<le> 600"
  shows "unat (c + 1) = unat c + 1"
proof -
  have "c \<le> 600" using assms by (rule order_trans)
  then have "unat c \<le> 600" by (simp add: word_le_nat_alt)
  then have "unat c + unat (1 :: 32 word) < 2 ^ LENGTH(32)" by simp
  then have "unat (c + 1) = unat c + unat (1 :: 32 word)"
    by (simp only: unat_add_lem)
  then show ?thesis by simp
qed

lemma count_list_replicate: "count_list (replicate n y) x = (if x = y then n else 0)"
  by (induction n) auto

lemma sum_list_single: "sum_list (map (\<lambda>j. if j = i then t else (0 :: nat)) [0..<n]) = (if i < n then t else 0)"
  by (induction n) auto

lemma tripCount_le: "tripCount w s cn ck \<le> 3"
  by (simp add: tripCount_def)

lemma tripCount_pos:
  "0 < tripCount w s cn ck \<longleftrightarrow> hyperEvent w s \<or> nmlTrips w s cn \<or> stuckTrips s ck"
  by (simp add: tripCount_def)

lemmas unfold_call = checkSensor_def wdLoop.simps snsLoop.simps sensorBody_def
  testHyperEvent_def testNoMansLand_def testStuckSensor_def nextSensor_def
  Cy_CapSense_InitializeSensorBaseline_def hyperEvent_def inNoMansLand_def touched_def
  HYPER_EVENT_FTH_MULTIPLIER_def CY_CAPSENSE_SNS_TOUCH_STATUS_MASK_def ALL_SENSORS_def
  twoWidgets_def oneSensor_def widgetA_def widgetB_def Let_def

lemma stuck_count_below:
  assumes "a < 600"
  shows "\<not> (of_nat a + 1 :: 32 word) > STUCK_SENSOR_COUNT"
proof -
  have "unat (of_nat (Suc a) :: 32 word) = Suc a"
    using assms by (simp add: unat_of_nat take_bit_nat_eq_self del: of_nat_Suc)
  then have "unat (of_nat a + 1 :: 32 word) \<le> 600"
    using assms by (simp add: add.commute)
  then show ?thesis
    by (simp add: word_less_nat_alt STUCK_SENSOR_COUNT_def STUCK_SENSOR_TIMEOUT_MSEC_def
        CAPSENSE_TOTAL_SCAN_TIME_MSEC_def)
qed

lemma stuck_count_reached: "(of_nat 600 + 1 :: 32 word) > STUCK_SENSOR_COUNT"
  by (simp add: STUCK_SENSOR_COUNT_def STUCK_SENSOR_TIMEOUT_MSEC_def
        CAPSENSE_TOTAL_SCAN_TIME_MSEC_def)

lemma touched_call_counts:
  assumes "a < 600"
  shows "checkSensor (oneSensor widgetA \<lparr>diff = 0, status = 1\<rparr>) ALL_SENSORS False
           \<lparr>noMansLandCounter = [0], stuckCounter = [of_nat a]\<rparr> =
         Some (0, \<lparr>noMansLandCounter = [0], stuckCounter = [of_nat (Suc a)]\<rparr>, [])"
  using stuck_count_below[OF assms] by (simp add: unfold_call)

lemma twoWidgets_wellFormed:
  "wellFormed (twoWidgets wa wb sa sb) \<lparr>noMansLandCounter = [a, b], stuckCounter = [a', b']\<rparr>"
  by (simp add: wellFormed_def twoWidgets_def sensorList_def widgetSensors_def)

lemma oneSensor_wellFormed:
  "wellFormed (oneSensor w s) \<lparr>noMansLandCounter = [a], stuckCounter = [a']\<rparr>"
  by (simp add: wellFormed_def oneSensor_def sensorList_def widgetSensors_def)

subsection \<open>Consecutive calls\<close>

lemma wellFormed_lengths:
  assumes "length (noMansLandCounter c') = length (noMansLandCounter c)"
    and "length (stuckCounter c') = length (stuckCounter c)"
  shows "wellFormed cs c' = wellFormed cs c"
  using assms by (simp add: wellFormed_def)

lemma scans_append:
  "scans (xs @ ys) c =
     (case scans xs c of
        None \<Rightarrow> None
      | Some (rs, c') \<Rightarrow>
          (case scans ys c' of None \<Rightarrow> None | Some (rs', c'') \<Rightarrow> Some (rs @ rs', c'')))"
  by (induction xs arbitrary: c) (auto split: option.splits)

lemma scans_replicate_fixed:
  assumes "checkSensor cs m rb c = Some (r, c, log)"
  shows "scans (replicate n (cs, m, rb)) c = Some (replicate n r, c)"
  using assms by (induction n) simp_all

lemma stuck_step:
  assumes "(if touched s then Suc a else a) \<le> 600"
  shows "stuckNext s (of_nat a) = of_nat (if touched s then Suc a else a)"
    and "\<not> stuckTrips s (of_nat a)"
proof -
  show "stuckNext s (of_nat a) = of_nat (if touched s then Suc a else a)"
  proof (cases "touched s")
    case True
    then have "a < 600" using assms by simp
    then show ?thesis
      using stuck_count_below[of a] True by (simp add: stuckNext_def)
  next
    case False
    then show ?thesis by (simp add: stuckNext_def)
  qed
  show "\<not> stuckTrips s (of_nat a)"
  proof (cases "touched s")
    case True
    then have "a < 600" using assms by simp
    then show ?thesis
      using stuck_count_below[of a] by (simp add: stuckTrips_def)
  next
    case False
    then show ?thesis by (simp add: stuckTrips_def)
  qed
qed

lemma scans_stuck_progress:
  assumes "\<forall>x \<in> set calls. wellFormed (fst x) c \<and> i < length (sensorContext (fst x)) \<and>
             bit (fst (snd x)) i"
    and "stuckCounter c ! i = of_nat a"
    and "a + length (filter (\<lambda>x. touched (sensorContext (fst x) ! i)) calls) \<le> 600"
  shows "\<exists>rs c'. scans calls c = Some (rs, c') \<and>
     length (noMansLandCounter c') = length (noMansLandCounter c) \<and>
     length (stuckCounter c') = length (stuckCounter c) \<and>
     stuckCounter c' ! i =
       of_nat (a + length (filter (\<lambda>x. touched (sensorContext (fst x) ! i)) calls)) \<and>
     list_all2 (\<lambda>x r. bit r i \<longrightarrow>
         hyperEvent (widgetContext (fst x) ! 0) (sensorContext (fst x) ! i) \<or>
         inNoMansLand (widgetContext (fst x) ! 0) (sensorContext (fst x) ! i)) calls rs"
  using assms
proof (induction calls arbitrary: c a)
  case Nil
  then show ?case by simp
next
  case (Cons x calls)
  obtain cs m rb where x: "x = (cs, m, rb)" by (cases x) auto
  let ?st = "finalLocals cs m rb c"
  let ?c1 = "\<lparr>noMansLandCounter = noMansLandCounter ?st, stuckCounter = stuckCounter ?st\<rparr>"
  let ?touched = "\<lambda>x. touched (sensorContext (fst x) ! i)"
  let ?a1 = "if touched (sensorContext cs ! i) then Suc a else a"
  have wf: "wellFormed cs c" and i: "i < length (sensorContext cs)" and sel: "bit m i"
    using Cons.prems(1) x by simp_all
  have call: "checkSensor cs m rb c = Some (result ?st, ?c1, baselineResets ?st)"
    by (rule checkSensor_final[OF wf])
  have bound: "?a1 + length (filter ?touched calls) \<le> 600"
    using Cons.prems(3) x by (auto split: if_splits)
  have step: "stuckNext (sensorContext cs ! i) (of_nat a) = of_nat ?a1"
    "\<not> stuckTrips (sensorContext cs ! i) (of_nat a)"
    using bound by (intro stuck_step; simp)+
  have c1: "stuckCounter ?c1 ! i = of_nat ?a1"
    using i sel Cons.prems(2) step(1) by (simp add: final_stuck[OF wf])
  have flag: "bit (result ?st) i \<longrightarrow>
      hyperEvent (widgetContext cs ! 0) (sensorContext cs ! i) \<or>
      inNoMansLand (widgetContext cs ! 0) (sensorContext cs ! i)"
    using i sel Cons.prems(2) step(2)
    by (simp add: final_result[OF wf] tripCount_pos nmlTrips_def)
  have len: "length (noMansLandCounter ?c1) = length (noMansLandCounter c)"
    "length (stuckCounter ?c1) = length (stuckCounter c)"
    by (simp_all add: final_lengths)
  have sel1: "\<forall>x \<in> set calls. wellFormed (fst x) ?c1 \<and> i < length (sensorContext (fst x)) \<and>
             bit (fst (snd x)) i"
    using Cons.prems(1) by (simp add: wellFormed_lengths[OF len])
  obtain rs c' where rest: "scans calls ?c1 = Some (rs, c')"
    "length (noMansLandCounter c') = length (noMansLandCounter ?c1)"
    "length (stuckCounter c') = length (stuckCounter ?c1)"
    "stuckCounter c' ! i = of_nat (?a1 + length (filter ?touched calls))"
    "list_all2 (\<lambda>x r. bit r i \<longrightarrow>
         hyperEvent (widgetContext (fst x) ! 0) (sensorContext (fst x) ! i) \<or>
         inNoMansLand (widgetContext (fst x) ! 0) (sensorContext (fst x) ! i)) calls rs"
    using Cons.IH[OF sel1 c1 bound] by blast
  have "scans (x # calls) c = Some (result ?st # rs, c')"
    using call rest(1) x by simp
  moreover have "stuckCounter c' ! i = of_nat (a + length (filter ?touched (x # calls)))"
    using rest(4) x by (auto split: if_splits)
  moreover have "list_all2 (\<lambda>x r. bit r i \<longrightarrow>
         hyperEvent (widgetContext (fst x) ! 0) (sensorContext (fst x) ! i) \<or>
         inNoMansLand (widgetContext (fst x) ! 0) (sensorContext (fst x) ! i))
       (x # calls) (result ?st # rs)"
    using rest(5) flag x by simp
  ultimately show ?case
    using rest(2,3) len by simp
qed

lemma unat_STUCK_SENSOR_COUNT: "unat STUCK_SENSOR_COUNT = 600"
  by (simp add: STUCK_SENSOR_COUNT_def STUCK_SENSOR_TIMEOUT_MSEC_def
      CAPSENSE_TOTAL_SCAN_TIME_MSEC_def)

lemma stuck_trips_at_count:
  assumes "touched s"
  shows "stuckTrips s (of_nat 600)" and "stuckNext s (of_nat 600) = 0"
  using assms stuck_count_reached by (simp_all add: stuckTrips_def stuckNext_def)

lemma oneSensor_fields:
  "sensorContext (oneSensor w s) = [s]" "widgetContext (oneSensor w s) = [w]"
  by (simp_all add: oneSensor_def)

lemma touched_run:
  "a + n \<le> 600 \<Longrightarrow>
   scans (replicate n (oneSensor widgetA \<lparr>diff = 0, status = 1\<rparr>, ALL_SENSORS, False))
     \<lparr>noMansLandCounter = [0], stuckCounter = [of_nat a]\<rparr> =
   Some (replicate n 0, \<lparr>noMansLandCounter = [0], stuckCounter = [of_nat (a + n)]\<rparr>)"
proof (induction n arbitrary: a)
  case 0
  show ?case by simp
next
  case (Suc n)
  then have "a < 600" "Suc a + n \<le> 600" by simp_all
  then show ?case
    using Suc.IH[of "Suc a"] touched_call_counts[of a] by (simp del: of_nat_Suc)
qed

lemmas unfold_rules = tripCount_def nmlTrips_def stuckTrips_def hyperEvent_def inNoMansLand_def
  touched_def HYPER_EVENT_FTH_MULTIPLIER_def CY_CAPSENSE_SNS_TOUCH_STATUS_MASK_def
  NO_MANS_LAND_COUNT_def STUCK_SENSOR_COUNT_def NO_MANS_LAND_TIMEOUT_MSEC_def
  STUCK_SENSOR_TIMEOUT_MSEC_def CAPSENSE_TOTAL_SCAN_TIME_MSEC_def widgetA_def widgetB_def

lemma zeroCounters_2:
  "zeroCounters 2 = \<lparr>noMansLandCounter = [0, 0], stuckCounter = [0, 0]\<rparr>"
  by (simp add: zeroCounters_def numeral_2_eq_2)

lemma scenario_call:
  "checkSensor (twoWidgets widgetA widgetB \<lparr>diff = 0, status = 0\<rparr> \<lparr>diff = 210, status = 0\<rparr>)
     ALL_SENSORS False (zeroCounters 2) = Some (2, zeroCounters 2, [])"
  by (simp add: unfold_call unfold_rules zeroCounters_2)

lemma in_band_call:
  "checkSensor (twoWidgets widgetA widgetB \<lparr>diff = 0, status = 0\<rparr> \<lparr>diff = 150, status = 0\<rparr>)
     ALL_SENSORS False (zeroCounters 2) = Some (0, zeroCounters 2, [])"
  by (simp add: unfold_call unfold_rules zeroCounters_2)

lemma zeroCounters_bounded:
  "\<forall>x \<in> set (noMansLandCounter (zeroCounters n)). x \<le> NO_MANS_LAND_COUNT"
  "\<forall>x \<in> set (stuckCounter (zeroCounters n)). x \<le> STUCK_SENSOR_COUNT"
  by (simp_all add: zeroCounters_def)

lemma untouched_status:
  "\<not> touched (s\<lparr>status := status s AND NOT CY_CAPSENSE_SNS_TOUCH_STATUS_MASK\<rparr>)"
  by (simp add: touched_def and.assoc)

lemma status_irrelevant:
  "hyperEvent w (s\<lparr>status := x\<rparr>) = hyperEvent w s"
  "inNoMansLand w (s\<lparr>status := x\<rparr>) = inNoMansLand w s"
  "nmlTrips w (s\<lparr>status := x\<rparr>) c = nmlTrips w s c"
  by (simp_all add: hyperEvent_def inNoMansLand_def nmlTrips_def)

lemma reportedUntouched_fields:
  "wdConfig (reportedUntouched i cs) = wdConfig cs"
  "widgetContext (reportedUntouched i cs) = widgetContext cs"
  "length (sensorContext (reportedUntouched i cs)) = length (sensorContext cs)"
  "i < length (sensorContext cs) \<Longrightarrow>
     sensorContext (reportedUntouched i cs) ! i =
       (sensorContext cs ! i)
         \<lparr>status := status (sensorContext cs ! i) AND NOT CY_CAPSENSE_SNS_TOUCH_STATUS_MASK\<rparr>"
  by (simp_all add: reportedUntouched_def)

lemma reportedUntouched_wellFormed:
  "wellFormed (reportedUntouched i cs) c = wellFormed cs c"
proof -
  have "widgetSensors (reportedUntouched i cs) = widgetSensors cs"
    by (intro ext) (simp add: widgetSensors_def reportedUntouched_fields)
  then have "sensorList (reportedUntouched i cs) = sensorList cs"
    by (simp add: sensorList_def reportedUntouched_fields)
  then show ?thesis
    by (simp add: wellFormed_def reportedUntouched_fields)
qed

lemma scans_length: "scans calls c = Some (rs, c') \<Longrightarrow> length rs = length calls"
  by (induction calls arbitrary: c rs) (auto split: option.splits)

lemma scans_prefix_call:
  assumes "scans calls c = Some (rs, c')" and "k < length calls"
    and "scans (take k calls) c = Some (rs_k, c_k)"
  shows "\<exists>c1 log. checkSensor (fst (calls ! k)) (fst (snd (calls ! k))) (snd (snd (calls ! k))) c_k =
            Some (rs ! k, c1, log)"
proof -
  obtain cs m rb where x: "calls ! k = (cs, m, rb)" by (cases "calls ! k") auto
  have split: "calls = take k calls @ (cs, m, rb) # drop (Suc k) calls"
    using id_take_nth_drop[OF assms(2)] x by simp
  have len: "length rs_k = k"
    using scans_length[OF assms(3)] assms(2) by simp
  have "scans (take k calls @ (cs, m, rb) # drop (Suc k) calls) c = Some (rs, c')"
    using assms(1) split by simp
  then obtain r c1 log rs2 where "checkSensor cs m rb c_k = Some (r, c1, log)" "rs = rs_k @ r # rs2"
    unfolding scans_append using assms(3) by (auto split: option.splits)
  then show ?thesis
    using len x by (simp add: nth_append)
qed

lemma filter_take_count:
  "length (filter P (take k xs)) \<le> length (filter P xs)"
proof -
  have "length (filter P xs) = length (filter P (take k xs)) + length (filter P (drop k xs))"
    by (metis append_take_drop_id filter_append length_append)
  then show ?thesis by simp
qed

lemma filter_take_Suc_count:
  assumes "k < length xs"
  shows "length (filter P (take k xs)) + (if P (xs ! k) then 1 else 0) \<le> length (filter P xs)"
proof -
  have "take (Suc k) xs = take k xs @ [xs ! k]"
    using assms by (rule take_Suc_conv_app_nth)
  then have "length (filter P (take (Suc k) xs)) =
      length (filter P (take k xs)) + (if P (xs ! k) then 1 else 0)"
    by simp
  then show ?thesis
    using filter_take_count[of P "Suc k" xs] by simp
qed

lemma earlier_call_not_stuck:
  assumes sel: "\<forall>x \<in> set calls. wellFormed (fst x) c \<and> i < length (sensorContext (fst x)) \<and>
             bit (fst (snd x)) i"
    and zero: "stuckCounter c ! i = 0"
    and count: "length (filter (\<lambda>x. touched (sensorContext (fst x) ! i)) calls) \<le> 600"
    and run: "scans calls c = Some (rs, c')"
    and k: "k < length calls"
  shows "\<exists>rs_k c_k r_u c_u log_u.
     scans (take k calls) c = Some (rs_k, c_k) \<and>
     stuckCounter c_k ! i =
       of_nat (length (filter (\<lambda>x. touched (sensorContext (fst x) ! i)) (take k calls))) \<and>
     \<not> stuckTrips (sensorContext (fst (calls ! k)) ! i) (stuckCounter c_k ! i) \<and>
     checkSensor (reportedUntouched i (fst (calls ! k))) (fst (snd (calls ! k)))
       (snd (snd (calls ! k))) c_k = Some (r_u, c_u, log_u) \<and>
     (bit (rs ! k) i \<longleftrightarrow> bit r_u i)"
proof -
  let ?T = "\<lambda>x. touched (sensorContext (fst x) ! i)"
  let ?n = "length (filter ?T (take k calls))"
  obtain cs m rb where x: "calls ! k = (cs, m, rb)" by (cases "calls ! k") auto
  have mem: "(cs, m, rb) \<in> set calls"
    using k x by (metis nth_mem)
  have wf0: "wellFormed cs c" and i: "i < length (sensorContext cs)" and m: "bit m i"
    using sel mem by auto
  have sel_k: "\<forall>x \<in> set (take k calls). wellFormed (fst x) c \<and>
      i < length (sensorContext (fst x)) \<and> bit (fst (snd x)) i"
    using sel by (meson in_set_takeD)
  have zero': "stuckCounter c ! i = of_nat 0"
    using zero by simp
  have step_bound: "?n + (if ?T (calls ! k) then 1 else 0) \<le> 600"
    using filter_take_Suc_count[OF k, of ?T] count by simp
  then have bound: "0 + ?n \<le> 600" by simp
  obtain rs_k c_k where pre: "scans (take k calls) c = Some (rs_k, c_k)"
    "length (noMansLandCounter c_k) = length (noMansLandCounter c)"
    "length (stuckCounter c_k) = length (stuckCounter c)"
    "stuckCounter c_k ! i = of_nat (0 + ?n)"
    using scans_stuck_progress[OF sel_k zero' bound] by blast
  have cnt: "stuckCounter c_k ! i = of_nat ?n"
    using pre(4) by simp
  have wf: "wellFormed cs c_k"
    using wf0 by (simp add: wellFormed_lengths[OF pre(2,3)])
  have "(if touched (sensorContext cs ! i) then Suc ?n else ?n) \<le> 600"
    using step_bound x by (auto split: if_splits)
  then have nostuck: "\<not> stuckTrips (sensorContext cs ! i) (of_nat ?n)"
    by (rule stuck_step(2))
  obtain c1 log where "checkSensor cs m rb c_k = Some (rs ! k, c1, log)"
    using scans_prefix_call[OF run k pre(1)] x by auto
  then have r: "rs ! k = result (finalLocals cs m rb c_k)"
    by (simp add: checkSensor_final[OF wf])
  let ?u = "reportedUntouched i cs"
  let ?stu = "finalLocals ?u m rb c_k"
  have wfu: "wellFormed ?u c_k"
    using wf by (simp add: reportedUntouched_wellFormed)
  have callu: "checkSensor ?u m rb c_k =
      Some (result ?stu, \<lparr>noMansLandCounter = noMansLandCounter ?stu,
        stuckCounter = stuckCounter ?stu\<rparr>, baselineResets ?stu)"
    by (rule checkSensor_final[OF wfu])
  have "bit (rs ! k) i \<longleftrightarrow>
      hyperEvent (widgetContext cs ! 0) (sensorContext cs ! i) \<or>
      nmlTrips (widgetContext cs ! 0) (sensorContext cs ! i) (noMansLandCounter c_k ! i)"
    using i m nostuck by (simp add: r final_result[OF wf] tripCount_pos cnt)
  moreover have "bit (result ?stu) i \<longleftrightarrow>
      hyperEvent (widgetContext cs ! 0) (sensorContext cs ! i) \<or>
      nmlTrips (widgetContext cs ! 0) (sensorContext cs ! i) (noMansLandCounter c_k ! i)"
    using i m untouched_status[of "sensorContext cs ! i"]
    by (simp add: final_result[OF wfu] tripCount_pos reportedUntouched_fields status_irrelevant
        stuckTrips_def)
  ultimately have "bit (rs ! k) i \<longleftrightarrow> bit (result ?stu) i" by simp
  then show ?thesis
    using pre(1) cnt nostuck callu x by auto
qed

subsection \<open>The rules, relative to the thresholds that are read\<close>

text \<open>
  \<open>ptrWdContext\<close> is set to the first widget context before the loops (line 76) and is
  never advanced, so every sensor is compared with \<open>widgetContext cs ! 0\<close>: the contexts
  of the other widgets can be replaced without any effect on a call
  (\<open>only_first_widget_context_read\<close>). Relative to the thresholds of the first widget the hyper event rule and the no man's land rule behave as described:
  a selected sensor above twice the finger threshold is reported at once, whatever the
  counters are, and a sensor whose no man's land counter is zero is reported by the no
  man's land rule on the call after \<open>NO_MANS_LAND_COUNT\<close> calls in the band.
\<close>

lemma sensorEffect_first_widget:
  assumes "ptrWdContext st = 0" and "widgetContext cs' ! 0 = widgetContext cs ! 0"
    and "sensorContext cs' = sensorContext cs"
  shows "sensorEffect cs' m rb l st = sensorEffect cs m rb l st"
  using assms by (simp add: sensorEffect_def)

lemma fold_effect_first_widget:
  assumes "ptrWdContext st = 0" and "widgetContext cs' ! 0 = widgetContext cs ! 0"
    and "sensorContext cs' = sensorContext cs"
  shows "fold (sensorEffect cs' m rb) ls st = fold (sensorEffect cs m rb) ls st"
  using assms(1)
proof (induction ls arbitrary: st)
  case Nil
  show ?case by simp
next
  case (Cons l ls)
  have "sensorEffect cs' m rb l st = sensorEffect cs m rb l st"
    using Cons.prems assms(2,3) by (rule sensorEffect_first_widget)
  moreover have "ptrWdContext (sensorEffect cs m rb l st) = 0"
    using Cons.prems by simp
  ultimately show ?case
    using Cons.IH by simp
qed

lemma only_first_widget_context_read:
  assumes "wellFormed cs c"
    and "length ws = length (widgetContext cs)"
    and "ws ! 0 = widgetContext cs ! 0"
  shows "checkSensor (cs\<lparr>widgetContext := ws\<rparr>) m rb c = checkSensor cs m rb c"
proof -
  let ?cs = "cs\<lparr>widgetContext := ws\<rparr>"
  have "widgetSensors ?cs = widgetSensors cs"
    by (intro ext) (simp add: widgetSensors_def)
  then have list: "sensorList ?cs = sensorList cs"
    by (simp add: sensorList_def)
  have wf: "wellFormed ?cs c"
    using assms(1,2) by (simp add: wellFormed_def list)
  have "finalLocals ?cs m rb c = finalLocals cs m rb c"
    unfolding finalLocals_def list
    using assms(3) by (intro fold_effect_first_widget) (simp_all add: initialLocals_def)
  then show ?thesis
    by (simp add: checkSensor_final[OF wf] checkSensor_final[OF assms(1)])
qed

lemma hyper_test_leaves_counters:
  "noMansLandCounter (testHyperEvent rb w s wid sn st) = noMansLandCounter st"
  "stuckCounter (testHyperEvent rb w s wid sn st) = stuckCounter st"
  by (simp_all add: testHyperEvent_eq)

lemma hyper_event_flagged_by_first_widget_threshold:
  assumes "wellFormed cs c" and "i < length (sensorContext cs)" and "bit sensorMask i"
    and "hyperEvent (widgetContext cs ! 0) (sensorContext cs ! i)"
  shows "\<exists>r c' log. checkSensor cs sensorMask resetBaseline c = Some (r, c', log) \<and> bit r i"
  using assms(2-4)
  by (simp add: checkSensor_final[OF assms(1)] final_result[OF assms(1)] tripCount_pos)

lemma unat_NO_MANS_LAND_COUNT: "unat NO_MANS_LAND_COUNT = 300"
  by (simp add: NO_MANS_LAND_COUNT_def NO_MANS_LAND_TIMEOUT_MSEC_def
      CAPSENSE_TOTAL_SCAN_TIME_MSEC_def)

lemma nml_count_below:
  assumes "a < 300"
  shows "\<not> (of_nat a + 1 :: 32 word) > NO_MANS_LAND_COUNT"
proof -
  have "unat (of_nat (Suc a) :: 32 word) = Suc a"
    using assms by (simp add: unat_of_nat take_bit_nat_eq_self del: of_nat_Suc)
  then have "unat (of_nat a + 1 :: 32 word) \<le> 300"
    using assms by (simp add: add.commute)
  then show ?thesis
    by (simp add: word_less_nat_alt unat_NO_MANS_LAND_COUNT)
qed

lemma nml_count_reached: "(of_nat 300 + 1 :: 32 word) > NO_MANS_LAND_COUNT"
  by (simp add: NO_MANS_LAND_COUNT_def NO_MANS_LAND_TIMEOUT_MSEC_def
      CAPSENSE_TOTAL_SCAN_TIME_MSEC_def)

lemma nml_step:
  assumes "(if inNoMansLand w s then Suc a else a) \<le> 300"
  shows "nmlNext w s (of_nat a) = of_nat (if inNoMansLand w s then Suc a else a)"
    and "\<not> nmlTrips w s (of_nat a)"
proof -
  have below: "\<not> (of_nat a + 1 :: 32 word) > NO_MANS_LAND_COUNT" if "inNoMansLand w s"
    using that assms by (intro nml_count_below) simp
  show "nmlNext w s (of_nat a) = of_nat (if inNoMansLand w s then Suc a else a)"
    using below by (cases "inNoMansLand w s") (simp_all add: nmlNext_def)
  show "\<not> nmlTrips w s (of_nat a)"
    using below by (cases "inNoMansLand w s") (simp_all add: nmlTrips_def)
qed

lemma scans_nml_progress:
  assumes "\<forall>x \<in> set calls. wellFormed (fst x) c \<and> i < length (sensorContext (fst x)) \<and>
             bit (fst (snd x)) i"
    and "noMansLandCounter c ! i = of_nat a"
    and "a + length (filter (\<lambda>x. inNoMansLand (widgetContext (fst x) ! 0)
                                  (sensorContext (fst x) ! i)) calls) \<le> 300"
  shows "\<exists>rs c'. scans calls c = Some (rs, c') \<and>
     length (noMansLandCounter c') = length (noMansLandCounter c) \<and>
     length (stuckCounter c') = length (stuckCounter c) \<and>
     noMansLandCounter c' ! i =
       of_nat (a + length (filter (\<lambda>x. inNoMansLand (widgetContext (fst x) ! 0)
                                        (sensorContext (fst x) ! i)) calls)) \<and>
     list_all2 (\<lambda>x r. bit r i \<longrightarrow>
         hyperEvent (widgetContext (fst x) ! 0) (sensorContext (fst x) ! i) \<or>
         touched (sensorContext (fst x) ! i)) calls rs"
  using assms
proof (induction calls arbitrary: c a)
  case Nil
  then show ?case by simp
next
  case (Cons x calls)
  obtain cs m rb where x: "x = (cs, m, rb)" by (cases x) auto
  let ?st = "finalLocals cs m rb c"
  let ?c1 = "\<lparr>noMansLandCounter = noMansLandCounter ?st, stuckCounter = stuckCounter ?st\<rparr>"
  let ?band = "\<lambda>x. inNoMansLand (widgetContext (fst x) ! 0) (sensorContext (fst x) ! i)"
  let ?a1 = "if inNoMansLand (widgetContext cs ! 0) (sensorContext cs ! i) then Suc a else a"
  have wf: "wellFormed cs c" and i: "i < length (sensorContext cs)" and sel: "bit m i"
    using Cons.prems(1) x by simp_all
  have call: "checkSensor cs m rb c = Some (result ?st, ?c1, baselineResets ?st)"
    by (rule checkSensor_final[OF wf])
  have bound: "?a1 + length (filter ?band calls) \<le> 300"
    using Cons.prems(3) x by (auto split: if_splits)
  have step: "nmlNext (widgetContext cs ! 0) (sensorContext cs ! i) (of_nat a) = of_nat ?a1"
    "\<not> nmlTrips (widgetContext cs ! 0) (sensorContext cs ! i) (of_nat a)"
    using bound by (intro nml_step; simp)+
  have c1: "noMansLandCounter ?c1 ! i = of_nat ?a1"
    using i sel Cons.prems(2) step(1) by (simp add: final_nml[OF wf])
  have flag: "bit (result ?st) i \<longrightarrow>
      hyperEvent (widgetContext cs ! 0) (sensorContext cs ! i) \<or> touched (sensorContext cs ! i)"
    using i sel Cons.prems(2) step(2)
    by (simp add: final_result[OF wf] tripCount_pos stuckTrips_def)
  have len: "length (noMansLandCounter ?c1) = length (noMansLandCounter c)"
    "length (stuckCounter ?c1) = length (stuckCounter c)"
    by (simp_all add: final_lengths)
  have sel1: "\<forall>x \<in> set calls. wellFormed (fst x) ?c1 \<and> i < length (sensorContext (fst x)) \<and>
             bit (fst (snd x)) i"
    using Cons.prems(1) by (simp add: wellFormed_lengths[OF len])
  obtain rs c' where rest: "scans calls ?c1 = Some (rs, c')"
    "length (noMansLandCounter c') = length (noMansLandCounter ?c1)"
    "length (stuckCounter c') = length (stuckCounter ?c1)"
    "noMansLandCounter c' ! i = of_nat (?a1 + length (filter ?band calls))"
    "list_all2 (\<lambda>x r. bit r i \<longrightarrow>
         hyperEvent (widgetContext (fst x) ! 0) (sensorContext (fst x) ! i) \<or>
         touched (sensorContext (fst x) ! i)) calls rs"
    using Cons.IH[OF sel1 c1 bound] by blast
  have "scans (x # calls) c = Some (result ?st # rs, c')"
    using call rest(1) x by simp
  moreover have "noMansLandCounter c' ! i = of_nat (a + length (filter ?band (x # calls)))"
    using rest(4) x by (auto split: if_splits)
  moreover have "list_all2 (\<lambda>x r. bit r i \<longrightarrow>
         hyperEvent (widgetContext (fst x) ! 0) (sensorContext (fst x) ! i) \<or>
         touched (sensorContext (fst x) ! i))
       (x # calls) (result ?st # rs)"
    using rest(5) flag x by simp
  ultimately show ?case
    using rest(2,3) len by simp
qed

lemma nml_rule_counts_in_band_calls:
  assumes "\<forall>x \<in> set calls. wellFormed (fst x) c \<and> i < length (sensorContext (fst x)) \<and>
             bit (fst (snd x)) i \<and>
             inNoMansLand (widgetContext (fst x) ! 0) (sensorContext (fst x) ! i)"
    and "noMansLandCounter c ! i = 0"
    and "length calls = unat NO_MANS_LAND_COUNT"
    and "wellFormed cs c" and "i < length (sensorContext cs)" and "bit sensorMask i"
    and "inNoMansLand (widgetContext cs ! 0) (sensorContext cs ! i)"
  shows "\<exists>rs c' r c'' log.
     scans calls c = Some (rs, c') \<and>
     noMansLandCounter c' ! i = NO_MANS_LAND_COUNT \<and>
     list_all2 (\<lambda>x r. bit r i \<longrightarrow>
         hyperEvent (widgetContext (fst x) ! 0) (sensorContext (fst x) ! i) \<or>
         touched (sensorContext (fst x) ! i)) calls rs \<and>
     checkSensor cs sensorMask resetBaseline c' = Some (r, c'', log) \<and>
     bit r i \<and> noMansLandCounter c'' ! i = 0"
proof -
  let ?band = "\<lambda>x. inNoMansLand (widgetContext (fst x) ! 0) (sensorContext (fst x) ! i)"
  have all: "filter ?band calls = calls"
    using assms(1) by (simp add: filter_id_conv)
  have sel: "\<forall>x \<in> set calls. wellFormed (fst x) c \<and> i < length (sensorContext (fst x)) \<and>
             bit (fst (snd x)) i"
    using assms(1) by simp
  have zero: "noMansLandCounter c ! i = of_nat 0"
    using assms(2) by simp
  have bound: "0 + length (filter ?band calls) \<le> 300"
    using assms(3) by (simp add: all unat_NO_MANS_LAND_COUNT)
  obtain rs c' where run: "scans calls c = Some (rs, c')"
    "length (noMansLandCounter c') = length (noMansLandCounter c)"
    "length (stuckCounter c') = length (stuckCounter c)"
    "noMansLandCounter c' ! i = of_nat (0 + length (filter ?band calls))"
    "list_all2 (\<lambda>x r. bit r i \<longrightarrow>
         hyperEvent (widgetContext (fst x) ! 0) (sensorContext (fst x) ! i) \<or>
         touched (sensorContext (fst x) ! i)) calls rs"
    using scans_nml_progress[OF sel zero bound] by blast
  have wf: "wellFormed cs c'"
    using assms(4) by (simp add: wellFormed_lengths[OF run(2,3)])
  have cnt: "noMansLandCounter c' ! i = of_nat 300"
    using run(4) assms(3) by (simp add: all unat_NO_MANS_LAND_COUNT)
  have trips: "nmlTrips (widgetContext cs ! 0) (sensorContext cs ! i) (noMansLandCounter c' ! i)"
    "nmlNext (widgetContext cs ! 0) (sensorContext cs ! i) (noMansLandCounter c' ! i) = 0"
    unfolding cnt using assms(7) nml_count_reached by (simp_all add: nmlTrips_def nmlNext_def)
  have "noMansLandCounter c' ! i = NO_MANS_LAND_COUNT"
    unfolding cnt
    by (simp add: NO_MANS_LAND_COUNT_def NO_MANS_LAND_TIMEOUT_MSEC_def
        CAPSENSE_TOTAL_SCAN_TIME_MSEC_def)
  then show ?thesis
    using run(1,5) trips assms(5,6)
    by (simp add: checkSensor_final[OF wf] final_result[OF wf] final_nml[OF wf] tripCount_pos)
qed

text \<open>
  Relative to the same thresholds, a selected sensor gets one baseline reset for every
  test that fires, up to three in one call, and its bit is set when at least one does.
\<close>

lemma resets_match_tests_that_fire:
  assumes "wellFormed cs c" and "i < length (sensorContext cs)" and "bit sensorMask i"
  shows "\<exists>r c' log. checkSensor cs sensorMask True c = Some (r, c', log) \<and>
     count_list log (sensorList cs ! i) =
       tripCount (widgetContext cs ! 0) (sensorContext cs ! i)
         (noMansLandCounter c ! i) (stuckCounter c ! i) \<and>
     tripCount (widgetContext cs ! 0) (sensorContext cs ! i)
         (noMansLandCounter c ! i) (stuckCounter c ! i) \<le> 3 \<and>
     (bit r i \<longleftrightarrow>
       0 < tripCount (widgetContext cs ! 0) (sensorContext cs ! i)
             (noMansLandCounter c ! i) (stuckCounter c ! i))"
proof -
  let ?st = "finalLocals cs sensorMask True c"
  let ?t = "\<lambda>j. tripCount (widgetContext cs ! 0) (sensorContext cs ! j)
         (noMansLandCounter c ! j) (stuckCounter c ! j)"
  have len: "length (sensorList cs) = length (sensorContext cs)"
    using assms(1) by (simp add: wellFormed_def)
  have same: "sensorList cs ! i = sensorList cs ! j \<longleftrightarrow> j = i" if "j < length (sensorContext cs)" for j
    using wellFormed_distinct[OF assms(1)] assms(2) len that
    by (auto simp: nth_eq_iff_index_eq)
  have eqmap: "map (\<lambda>j. count_list (if bit sensorMask j then replicate (?t j) (sensorList cs ! j) else [])
                  (sensorList cs ! i)) [0..<length (sensorContext cs)] =
        map (\<lambda>j. if j = i then ?t i else 0) [0..<length (sensorContext cs)]"
    using assms(3) by (intro map_cong) (auto simp: count_list_replicate same)
  have "count_list (baselineResets ?st) (sensorList cs ! i) =
      sum_list (map (\<lambda>j. count_list (if bit sensorMask j
          then replicate (?t j) (sensorList cs ! j) else []) (sensorList cs ! i))
        [0..<length (sensorContext cs)])"
    by (simp add: final_resets[OF assms(1)] count_list_concat o_def)
  also have "\<dots> = sum_list (map (\<lambda>j. if j = i then ?t i else 0) [0..<length (sensorContext cs)])"
    by (rule arg_cong[OF eqmap])
  also have "\<dots> = ?t i"
    using assms(2) by (simp add: sum_list_single)
  finally have "count_list (baselineResets ?st) (sensorList cs ! i) = ?t i" .
  moreover have "bit (result ?st) i \<longleftrightarrow> 0 < ?t i"
    using assms(2,3) by (simp add: final_result[OF assms(1)])
  ultimately show ?thesis
    by (simp add: checkSensor_final[OF assms(1)] tripCount_le)
qed

lemma three_resets_in_one_call:
  "\<exists>r c' log.
     checkSensor (oneSensor \<lparr>fingerTh = 10, noiseTh = 5, hysteresis = 100\<rparr> \<lparr>diff = 50, status = 1\<rparr>)
       ALL_SENSORS True \<lparr>noMansLandCounter = [300], stuckCounter = [600]\<rparr> = Some (r, c', log) \<and>
     count_list log (0, 0) = 3 \<and> bit r 0"
proof -
  let ?w = "\<lparr>fingerTh = 10, noiseTh = 5, hysteresis = 100\<rparr>"
  let ?s = "\<lparr>diff = 50, status = 1\<rparr>"
  let ?cs = "oneSensor ?w ?s"
  let ?c = "\<lparr>noMansLandCounter = [300], stuckCounter = [600]\<rparr>"
  have h1: "wellFormed ?cs ?c" by (rule oneSensor_wellFormed)
  have h2: "0 < length (sensorContext ?cs)" by (simp add: oneSensor_def)
  have h3: "bit ALL_SENSORS (0 :: nat)" by (simp add: ALL_SENSORS_def)
  have t: "tripCount ?w ?s 300 600 = 3"
    by (simp add: tripCount_def hyperEvent_def nmlTrips_def stuckTrips_def inNoMansLand_def
        touched_def HYPER_EVENT_FTH_MULTIPLIER_def CY_CAPSENSE_SNS_TOUCH_STATUS_MASK_def
        NO_MANS_LAND_COUNT_def STUCK_SENSOR_COUNT_def NO_MANS_LAND_TIMEOUT_MSEC_def
        STUCK_SENSOR_TIMEOUT_MSEC_def CAPSENSE_TOTAL_SCAN_TIME_MSEC_def)
  have l: "sensorList ?cs ! 0 = (0, 0)"
    by (simp add: sensorList_def widgetSensors_def oneSensor_def)
  have f: "widgetContext ?cs ! 0 = ?w" "sensorContext ?cs ! 0 = ?s"
    by (simp_all add: oneSensor_def)
  show ?thesis
    using resets_match_tests_that_fire[OF h1 h2 h3] by (simp add: t l f)
qed

section \<open>Properties\<close>

subsection \<open>Whose thresholds\<close>

text \<open>
  C1. For every sensor examined, the three rules are to compare the sensor's signal and
  touch status with the thresholds of the widget the sensor belongs to, not with those
  of another widget. The code compares every sensor with the thresholds of the first
  widget. In the scenario's configuration a touch of 250 on the sensor of widget B
  (FT = 200, HYST = 20: a plain touch, neither a hyper event nor in no man's land for
  widget B) is reported as a hyper event and gets a baseline reset, because 250 exceeds
  twice the finger threshold of widget A.
\<close>

theorem second_widget_checked_against_first:
  "checkSensor (twoWidgets widgetA widgetB \<lparr>diff = 0, status = 0\<rparr> \<lparr>diff = 250, status = 1\<rparr>)
     ALL_SENSORS True (zeroCounters 2) =
   Some (2, \<lparr>noMansLandCounter = [0, 0], stuckCounter = [0, 1]\<rparr>, [(1, 0)])
   \<and> \<not> hyperEvent widgetB \<lparr>diff = 250, status = 1\<rparr>
   \<and> \<not> inNoMansLand widgetB \<lparr>diff = 250, status = 1\<rparr>
   \<and> hyperEvent widgetA \<lparr>diff = 250, status = 1\<rparr>"
  by (simp add: unfold_call unfold_rules zeroCounters_2)

subsection \<open>The end-to-end scenario\<close>

text \<open>
  C2. Two widgets of one sensor each, A with FT = 100, NT = 20, HYST = 10 and B with
  FT = 200, NT = 50, HYST = 20; all sensors selected, no reset; sensor A idle and sensor
  B at 210. The calls are to return 0 for \<open>NO_MANS_LAND_COUNT\<close> calls and \<open>0b10\<close> on
  the next one. The code returns \<open>0b10\<close> on every one of the 301 calls, the first
  included: sensor B is compared with widget A's finger threshold, and 210 exceeds twice
  that. The no man's land counter of sensor B stays 0 throughout.
\<close>

theorem scenario_flags_sensor_B_at_once:
  "scans (replicate 301
      (twoWidgets widgetA widgetB \<lparr>diff = 0, status = 0\<rparr> \<lparr>diff = 210, status = 0\<rparr>,
       ALL_SENSORS, False)) (zeroCounters 2) =
   Some (replicate 301 2, zeroCounters 2)"
  by (rule scans_replicate_fixed[OF scenario_call])

subsection \<open>Sensors outside the mask\<close>

text \<open>
  C3. For every call and for every sensor whose bit is not set in \<open>sensorMask\<close>:
  that sensor's bit in the returned mask is 0, its no man's land counter and its stuck
  counter are unchanged by the call, whatever its signal and touch status are, and no
  baseline reset is requested for it (no call of
  \<open>Cy_CapSense_InitializeSensorBaseline\<close> carries its widget and sensor number).
\<close>

theorem unselected_sensor_untouched:
  assumes "wellFormed cs c" and "i < length (sensorContext cs)" and "\<not> bit sensorMask i"
  shows "\<exists>r c' log. checkSensor cs sensorMask resetBaseline c = Some (r, c', log) \<and>
     \<not> bit r i \<and>
     noMansLandCounter c' ! i = noMansLandCounter c ! i \<and>
     stuckCounter c' ! i = stuckCounter c ! i \<and>
     sensorList cs ! i \<notin> set log"
proof -
  let ?st = "finalLocals cs sensorMask resetBaseline c"
  have len: "length (sensorList cs) = length (sensorContext cs)"
    using assms(1) by (simp add: wellFormed_def)
  have "sensorList cs ! i \<notin> set (baselineResets ?st)"
  proof
    assume "sensorList cs ! i \<in> set (baselineResets ?st)"
    then obtain j where j: "j < length (sensorContext cs)" "bit sensorMask j"
      "sensorList cs ! i = sensorList cs ! j"
      unfolding final_resets[OF assms(1)] by (auto split: if_splits)
    then have "i = j"
      using wellFormed_distinct[OF assms(1)] assms(2) len by (simp add: nth_eq_iff_index_eq)
    then show False using j(2) assms(3) by simp
  qed
  moreover have "\<not> bit (result ?st) i"
    using assms(3) by (simp add: final_result[OF assms(1)])
  moreover have "noMansLandCounter ?st ! i = noMansLandCounter c ! i"
    using assms(3) by (simp add: final_nml[OF assms(1)])
  moreover have "stuckCounter ?st ! i = stuckCounter c ! i"
    using assms(3) by (simp add: final_stuck[OF assms(1)])
  ultimately show ?thesis
    by (simp add: checkSensor_final[OF assms(1)])
qed

theorem unselected_sensor_untouched_witness:
  "\<exists>r c' log.
     checkSensor (twoWidgets widgetA widgetB \<lparr>diff = 0, status = 0\<rparr> \<lparr>diff = 1000, status = 1\<rparr>)
       1 True \<lparr>noMansLandCounter = [0, 300], stuckCounter = [0, 600]\<rparr> = Some (r, c', log) \<and>
     \<not> bit r 1 \<and>
     noMansLandCounter c' ! 1 = [0, 300] ! 1 \<and>
     stuckCounter c' ! 1 = [0, 600] ! 1 \<and>
     sensorList (twoWidgets widgetA widgetB \<lparr>diff = 0, status = 0\<rparr> \<lparr>diff = 1000, status = 1\<rparr>) ! 1
       \<notin> set log"
proof -
  let ?cs = "twoWidgets widgetA widgetB \<lparr>diff = 0, status = 0\<rparr> \<lparr>diff = 1000, status = 1\<rparr>"
  let ?c = "\<lparr>noMansLandCounter = [0, 300], stuckCounter = [0, 600]\<rparr>"
  have h1: "wellFormed ?cs ?c" by (rule twoWidgets_wellFormed)
  have h2: "1 < length (sensorContext ?cs)" by (simp add: twoWidgets_def)
  have h3: "\<not> bit (1 :: 32 word) (1 :: nat)" by simp
  show ?thesis
    using unselected_sensor_untouched[OF h1 h2 h3, of True] by simp
qed

subsection \<open>No man's land\<close>

text \<open>
  C4. A selected sensor whose no man's land counter starts at zero and whose signal
  stays strictly between the noise threshold and finger threshold plus hysteresis is to
  be reported by the no man's land rule exactly on call \<open>NO_MANS_LAND_COUNT + 1\<close>.
  The code does so only relative to the first widget's thresholds
  (\<open>nml_rule_counts_in_band_calls\<close>). The sensor of widget B held at 150, inside the
  band (50, 220) of widget B, is never reported in 301 calls, and its counter stays 0.
\<close>

theorem in_band_sensor_of_second_widget_never_flagged:
  "scans (replicate 301
      (twoWidgets widgetA widgetB \<lparr>diff = 0, status = 0\<rparr> \<lparr>diff = 150, status = 0\<rparr>,
       ALL_SENSORS, False)) (zeroCounters 2) =
   Some (replicate 301 0, zeroCounters 2)
   \<and> inNoMansLand widgetB \<lparr>diff = 150, status = 0\<rparr>"
  using scans_replicate_fixed[OF in_band_call, of 301] by (simp add: unfold_rules)

subsection \<open>Stuck sensor\<close>

text \<open>
  C5, with the streak requirement replaced by what the code counts. The stuck counter
  is not cleared when a selected sensor is reported untouched. For a selected sensor
  whose stuck counter starts at zero, and a run of selected calls of which at most
  \<open>STUCK_SENSOR_COUNT\<close> report it touched, consecutive or not:
  \<^item> on entry to each call of the run the counter equals the number of earlier calls
    that reported the sensor touched;
  \<^item> on no call of the run does the stuck test fire, and the sensor's bit in the
    returned mask is what the same call, on the same counters, returns when the
    sensor is reported untouched;
  \<^item> on the next selected call that reports it touched, the stuck test fires, the
    sensor is reported and the counter is reset to 0 if this is touched call number
    \<open>STUCK_SENSOR_COUNT + 1\<close>; otherwise the test does not fire and the counter is
    incremented.
\<close>

theorem stuck_rule_counts_touched_calls:
  assumes "\<forall>x \<in> set calls. wellFormed (fst x) c \<and> i < length (sensorContext (fst x)) \<and>
             bit (fst (snd x)) i"
    and "stuckCounter c ! i = 0"
    and "length (filter (\<lambda>x. touched (sensorContext (fst x) ! i)) calls) \<le> unat STUCK_SENSOR_COUNT"
    and "wellFormed cs c" and "i < length (sensorContext cs)" and "bit sensorMask i"
    and "touched (sensorContext cs ! i)"
  shows "\<exists>rs c' r c'' log.
     scans calls c = Some (rs, c') \<and>
     stuckCounter c' ! i = of_nat (length (filter (\<lambda>x. touched (sensorContext (fst x) ! i)) calls)) \<and>
     (\<forall>k < length calls. \<exists>rs_k c_k r_u c_u log_u.
        scans (take k calls) c = Some (rs_k, c_k) \<and>
        stuckCounter c_k ! i =
          of_nat (length (filter (\<lambda>x. touched (sensorContext (fst x) ! i)) (take k calls))) \<and>
        \<not> stuckTrips (sensorContext (fst (calls ! k)) ! i) (stuckCounter c_k ! i) \<and>
        checkSensor (reportedUntouched i (fst (calls ! k))) (fst (snd (calls ! k)))
          (snd (snd (calls ! k))) c_k = Some (r_u, c_u, log_u) \<and>
        (bit (rs ! k) i \<longleftrightarrow> bit r_u i)) \<and>
     checkSensor cs sensorMask resetBaseline c' = Some (r, c'', log) \<and>
     (if length (filter (\<lambda>x. touched (sensorContext (fst x) ! i)) calls) = unat STUCK_SENSOR_COUNT
      then stuckTrips (sensorContext cs ! i) (stuckCounter c' ! i) \<and>
           bit r i \<and> stuckCounter c'' ! i = 0
      else \<not> stuckTrips (sensorContext cs ! i) (stuckCounter c' ! i) \<and>
           stuckCounter c'' ! i =
             of_nat (Suc (length (filter (\<lambda>x. touched (sensorContext (fst x) ! i)) calls))))"
proof -
  let ?T = "\<lambda>x. touched (sensorContext (fst x) ! i)"
  let ?k = "length (filter ?T calls)"
  have k: "?k \<le> 600"
    using assms(3) by (simp add: unat_STUCK_SENSOR_COUNT)
  have zero: "stuckCounter c ! i = of_nat 0"
    using assms(2) by simp
  have bound: "0 + ?k \<le> 600" using k by simp
  obtain rs c' where run: "scans calls c = Some (rs, c')"
    "length (noMansLandCounter c') = length (noMansLandCounter c)"
    "length (stuckCounter c') = length (stuckCounter c)"
    "stuckCounter c' ! i = of_nat (0 + ?k)"
    using scans_stuck_progress[OF assms(1) zero bound] by blast
  have earlier: "\<forall>j < length calls. \<exists>rs_k c_k r_u c_u log_u.
        scans (take j calls) c = Some (rs_k, c_k) \<and>
        stuckCounter c_k ! i = of_nat (length (filter ?T (take j calls))) \<and>
        \<not> stuckTrips (sensorContext (fst (calls ! j)) ! i) (stuckCounter c_k ! i) \<and>
        checkSensor (reportedUntouched i (fst (calls ! j))) (fst (snd (calls ! j)))
          (snd (snd (calls ! j))) c_k = Some (r_u, c_u, log_u) \<and>
        (bit (rs ! j) i \<longleftrightarrow> bit r_u i)"
    using earlier_call_not_stuck[OF assms(1,2) k run(1)] by blast
  have wf: "wellFormed cs c'"
    using assms(4) by (simp add: wellFormed_lengths[OF run(2,3)])
  let ?st = "finalLocals cs sensorMask resetBaseline c'"
  let ?c2 = "\<lparr>noMansLandCounter = noMansLandCounter ?st, stuckCounter = stuckCounter ?st\<rparr>"
  have call: "checkSensor cs sensorMask resetBaseline c' = Some (result ?st, ?c2, baselineResets ?st)"
    by (rule checkSensor_final[OF wf])
  have cnt: "stuckCounter c' ! i = of_nat ?k"
    using run(4) by simp
  have last: "if ?k = unat STUCK_SENSOR_COUNT
      then stuckTrips (sensorContext cs ! i) (stuckCounter c' ! i) \<and>
           bit (result ?st) i \<and> stuckCounter ?c2 ! i = 0
      else \<not> stuckTrips (sensorContext cs ! i) (stuckCounter c' ! i) \<and>
           stuckCounter ?c2 ! i = of_nat (Suc ?k)"
  proof (cases "?k = 600")
    case True
    have "stuckTrips (sensorContext cs ! i) (stuckCounter c' ! i)"
      "stuckNext (sensorContext cs ! i) (stuckCounter c' ! i) = 0"
      unfolding cnt True using assms(7) by (rule stuck_trips_at_count)+
    then show ?thesis
      using True assms(5,6)
      by (simp add: unat_STUCK_SENSOR_COUNT final_result[OF wf] final_stuck[OF wf] tripCount_pos)
  next
    case False
    then have "(if touched (sensorContext cs ! i) then Suc ?k else ?k) \<le> 600"
      using k assms(7) by simp
    then have "stuckNext (sensorContext cs ! i) (of_nat ?k) =
        of_nat (if touched (sensorContext cs ! i) then Suc ?k else ?k)"
      "\<not> stuckTrips (sensorContext cs ! i) (of_nat ?k)"
      by (rule stuck_step)+
    then show ?thesis
      using False assms(5,6,7)
      by (simp add: unat_STUCK_SENSOR_COUNT final_stuck[OF wf] cnt del: of_nat_Suc)
  qed
  show ?thesis
    using run(1) cnt earlier call last by blast
qed

theorem stuck_rule_counts_touched_calls_witness:
  "\<exists>rs c' r c'' log.
     scans (replicate 300 (oneSensor widgetA \<lparr>diff = 0, status = 1\<rparr>, ALL_SENSORS, False) @
            [(oneSensor widgetA \<lparr>diff = 0, status = 0\<rparr>, ALL_SENSORS, False)] @
            replicate 300 (oneSensor widgetA \<lparr>diff = 0, status = 1\<rparr>, ALL_SENSORS, False))
       \<lparr>noMansLandCounter = [0], stuckCounter = [0]\<rparr> = Some (rs, c') \<and>
     stuckCounter c' ! 0 = 600 \<and>
     checkSensor (oneSensor widgetA \<lparr>diff = 0, status = 1\<rparr>) ALL_SENSORS True c' =
       Some (r, c'', log) \<and>
     bit r 0 \<and> stuckCounter c'' ! 0 = 0"
proof -
  let ?T = "oneSensor widgetA \<lparr>diff = 0, status = 1\<rparr>"
  let ?U = "oneSensor widgetA \<lparr>diff = 0, status = 0\<rparr>"
  let ?calls = "replicate 300 (?T, ALL_SENSORS, False) @ [(?U, ALL_SENSORS, False)] @
      replicate 300 (?T, ALL_SENSORS, False)"
  let ?c = "\<lparr>noMansLandCounter = [0], stuckCounter = [0]\<rparr>"
  have t: "touched (sensorContext ?T ! 0)" "\<not> touched (sensorContext ?U ! 0)"
    by (simp_all add: oneSensor_def touched_def CY_CAPSENSE_SNS_TOUCH_STATUS_MASK_def)
  have k: "length (filter (\<lambda>x. touched (sensorContext (fst x) ! 0)) ?calls) = 600"
    using t by simp
  have h1: "\<forall>x \<in> set ?calls. wellFormed (fst x) ?c \<and> 0 < length (sensorContext (fst x)) \<and>
      bit (fst (snd x)) 0"
    by (auto simp: oneSensor_wellFormed oneSensor_fields ALL_SENSORS_def)
  have h2: "stuckCounter ?c ! 0 = 0" by simp
  have h3: "length (filter (\<lambda>x. touched (sensorContext (fst x) ! 0)) ?calls) \<le> unat STUCK_SENSOR_COUNT"
    unfolding k by (simp add: unat_STUCK_SENSOR_COUNT)
  have h4: "wellFormed ?T ?c" by (rule oneSensor_wellFormed)
  have h5: "0 < length (sensorContext ?T)" by (simp add: oneSensor_def)
  have h6: "bit ALL_SENSORS (0 :: nat)" by (simp add: ALL_SENSORS_def)
  obtain rs c' r c'' log where concl:
    "scans ?calls ?c = Some (rs, c')"
    "stuckCounter c' ! 0 = of_nat (length (filter (\<lambda>x. touched (sensorContext (fst x) ! 0)) ?calls))"
    "checkSensor ?T ALL_SENSORS True c' = Some (r, c'', log)"
    "if length (filter (\<lambda>x. touched (sensorContext (fst x) ! 0)) ?calls) = unat STUCK_SENSOR_COUNT
      then stuckTrips (sensorContext ?T ! 0) (stuckCounter c' ! 0) \<and>
           bit r 0 \<and> stuckCounter c'' ! 0 = 0
      else \<not> stuckTrips (sensorContext ?T ! 0) (stuckCounter c' ! 0) \<and>
           stuckCounter c'' ! 0 =
             of_nat (Suc (length (filter (\<lambda>x. touched (sensorContext (fst x) ! 0)) ?calls)))"
    using stuck_rule_counts_touched_calls[OF h1 h2 h3 h4 h5 h6 t(1), of True] by blast
  have "stuckCounter c' ! 0 = 600"
    using concl(2) unfolding k by simp
  moreover have "bit r 0 \<and> stuckCounter c'' ! 0 = 0"
    using concl(4) unfolding k by (simp add: unat_STUCK_SENSOR_COUNT)
  ultimately show ?thesis
    using concl(1,3) by blast
qed

text \<open>
  An untouched call does not restart the count: after 600 touched calls and one
  untouched call, the very next touched call, a streak of length one, reports the
  sensor.
\<close>

theorem stuck_streak_reset_counterexample:
  "scans (replicate 600 (oneSensor widgetA \<lparr>diff = 0, status = 1\<rparr>, ALL_SENSORS, False) @
          [(oneSensor widgetA \<lparr>diff = 0, status = 0\<rparr>, ALL_SENSORS, False),
           (oneSensor widgetA \<lparr>diff = 0, status = 1\<rparr>, ALL_SENSORS, False)])
     (zeroCounters 1) =
   Some (replicate 600 0 @ [0, 1], zeroCounters 1)"
proof -
  have "scans (replicate 600 (oneSensor widgetA \<lparr>diff = 0, status = 1\<rparr>, ALL_SENSORS, False))
      (zeroCounters 1) =
      Some (replicate 600 0, \<lparr>noMansLandCounter = [0], stuckCounter = [600]\<rparr>)"
    using touched_run[of 0 600] by (simp add: zeroCounters_def)
  moreover have "scans [(oneSensor widgetA \<lparr>diff = 0, status = 0\<rparr>, ALL_SENSORS, False),
           (oneSensor widgetA \<lparr>diff = 0, status = 1\<rparr>, ALL_SENSORS, False)]
      \<lparr>noMansLandCounter = [0], stuckCounter = [600]\<rparr> =
      Some ([0, 1], zeroCounters 1)"
    by (simp add: unfold_call zeroCounters_def STUCK_SENSOR_COUNT_def
        STUCK_SENSOR_TIMEOUT_MSEC_def CAPSENSE_TOTAL_SCAN_TIME_MSEC_def)
  ultimately show ?thesis
    by (simp only: scans_append option.case prod.case)
qed

subsection \<open>Hyper event\<close>

text \<open>
  C6. Every selected sensor whose signal exceeds \<open>HYPER_EVENT_FTH_MULTIPLIER\<close> times
  the finger threshold is to be reported on that very call, whatever the counters are.
  The code does so relative to the first widget's finger threshold
  (\<open>hyper_event_flagged_by_first_widget_threshold\<close>), and the hyper event test leaves
  both counters alone (\<open>hyper_test_leaves_counters\<close>). With the two widgets of the
  scenario in the other order, the sensor of the second widget (FT = 100) at 250 has a
  hyper event, and the call returns 0.
\<close>

theorem hyper_event_of_second_widget_missed:
  "checkSensor (twoWidgets widgetB widgetA \<lparr>diff = 0, status = 0\<rparr> \<lparr>diff = 250, status = 0\<rparr>)
     ALL_SENSORS False (zeroCounters 2) = Some (0, zeroCounters 2, [])
   \<and> hyperEvent widgetA \<lparr>diff = 250, status = 0\<rparr>"
  by (simp add: unfold_call unfold_rules zeroCounters_2)

subsection \<open>The reset flag\<close>

text \<open>
  C7. For every state of the counters, every sensor and widget data and every mask, the
  calls with \<open>resetBaseline = true\<close> and with \<open>resetBaseline = false\<close> return the
  same mask and leave the same counters; with \<open>resetBaseline = false\<close> no baseline
  reset is requested.
\<close>

theorem reset_flag_changes_resets_only:
  assumes "wellFormed cs c"
  shows "\<exists>r c' log. checkSensor cs sensorMask True c = Some (r, c', log) \<and>
     checkSensor cs sensorMask False c = Some (r, c', [])"
proof -
  have "baselineResets (finalLocals cs sensorMask False c) = []"
    by (simp add: final_resets[OF assms])
  then show ?thesis
    by (simp add: checkSensor_final[OF assms] final_flag_independent[OF assms])
qed

theorem reset_flag_changes_resets_only_witness:
  "\<exists>r c' log.
     checkSensor (twoWidgets widgetA widgetB \<lparr>diff = 250, status = 1\<rparr> \<lparr>diff = 210, status = 0\<rparr>)
       ALL_SENSORS True \<lparr>noMansLandCounter = [0, 300], stuckCounter = [600, 0]\<rparr> = Some (r, c', log) \<and>
     checkSensor (twoWidgets widgetA widgetB \<lparr>diff = 250, status = 1\<rparr> \<lparr>diff = 210, status = 0\<rparr>)
       ALL_SENSORS False \<lparr>noMansLandCounter = [0, 300], stuckCounter = [600, 0]\<rparr> = Some (r, c', [])"
  by (rule reset_flag_changes_resets_only[OF twoWidgets_wellFormed])

subsection \<open>The count thresholds\<close>

text \<open>
  C8. The two count thresholds are constants obtained by truncating integer division of
  the timeout by the scan period: \<open>NO_MANS_LAND_COUNT = 3000 / 10 = 300\<close> and
  \<open>STUCK_SENSOR_COUNT = 6000 / 10 = 600\<close>.
\<close>

theorem count_thresholds:
  "unat NO_MANS_LAND_COUNT = unat NO_MANS_LAND_TIMEOUT_MSEC div unat CAPSENSE_TOTAL_SCAN_TIME_MSEC
   \<and> unat NO_MANS_LAND_TIMEOUT_MSEC = 3000
   \<and> unat STUCK_SENSOR_COUNT = unat STUCK_SENSOR_TIMEOUT_MSEC div unat CAPSENSE_TOTAL_SCAN_TIME_MSEC
   \<and> unat STUCK_SENSOR_TIMEOUT_MSEC = 6000
   \<and> unat CAPSENSE_TOTAL_SCAN_TIME_MSEC = 10
   \<and> NO_MANS_LAND_COUNT = 300
   \<and> STUCK_SENSOR_COUNT = 600"
  by (simp add: NO_MANS_LAND_COUNT_def STUCK_SENSOR_COUNT_def NO_MANS_LAND_TIMEOUT_MSEC_def
      STUCK_SENSOR_TIMEOUT_MSEC_def CAPSENSE_TOTAL_SCAN_TIME_MSEC_def)

subsection \<open>The counters stay bounded\<close>

text \<open>
  C9. If on entry every no man's land counter is at most \<open>NO_MANS_LAND_COUNT\<close> and
  every stuck counter at most \<open>STUCK_SENSOR_COUNT\<close> (as in the zero-initialised
  state, \<open>zeroCounters_bounded\<close>), the same bounds hold on exit, for every mask, flag and sensor data; the
  increments of the call do not wrap around.
\<close>

theorem counters_stay_bounded:
  assumes "wellFormed cs c"
    and "\<forall>x \<in> set (noMansLandCounter c). x \<le> NO_MANS_LAND_COUNT"
    and "\<forall>x \<in> set (stuckCounter c). x \<le> STUCK_SENSOR_COUNT"
  shows "\<exists>r c' log. checkSensor cs sensorMask resetBaseline c = Some (r, c', log) \<and>
     (\<forall>x \<in> set (noMansLandCounter c'). x \<le> NO_MANS_LAND_COUNT) \<and>
     (\<forall>x \<in> set (stuckCounter c'). x \<le> STUCK_SENSOR_COUNT) \<and>
     (\<forall>x \<in> set (noMansLandCounter c). unat (x + 1) = unat x + 1) \<and>
     (\<forall>x \<in> set (stuckCounter c). unat (x + 1) = unat x + 1)"
proof -
  let ?st = "finalLocals cs sensorMask resetBaseline c"
  have "x \<le> NO_MANS_LAND_COUNT" if mem: "x \<in> set (noMansLandCounter ?st)" for x
  proof -
    obtain j where "j < length (noMansLandCounter ?st)" "noMansLandCounter ?st ! j = x"
      using mem by (auto simp: in_set_conv_nth)
    then have j: "j < length (noMansLandCounter c)" "x = noMansLandCounter ?st ! j"
      by (simp_all add: final_lengths)
    then have "noMansLandCounter c ! j \<le> NO_MANS_LAND_COUNT"
      using assms(2) by simp
    then show ?thesis
      unfolding j(2) final_nml[OF assms(1)] by (simp add: nmlNext_bounded)
  qed
  moreover have "x \<le> STUCK_SENSOR_COUNT" if mem: "x \<in> set (stuckCounter ?st)" for x
  proof -
    obtain j where "j < length (stuckCounter ?st)" "stuckCounter ?st ! j = x"
      using mem by (auto simp: in_set_conv_nth)
    then have j: "j < length (stuckCounter c)" "x = stuckCounter ?st ! j"
      by (simp_all add: final_lengths)
    then have "stuckCounter c ! j \<le> STUCK_SENSOR_COUNT"
      using assms(3) by simp
    then show ?thesis
      unfolding j(2) final_stuck[OF assms(1)] by (simp add: stuckNext_bounded)
  qed
  moreover have "unat (x + 1) = unat x + 1" if mem: "x \<in> set (noMansLandCounter c)" for x
  proof (rule increment_exact)
    show "x \<le> NO_MANS_LAND_COUNT" using mem assms(2) by simp
    show "NO_MANS_LAND_COUNT \<le> 600"
      by (simp add: NO_MANS_LAND_COUNT_def NO_MANS_LAND_TIMEOUT_MSEC_def
          CAPSENSE_TOTAL_SCAN_TIME_MSEC_def)
  qed
  moreover have "unat (x + 1) = unat x + 1" if mem: "x \<in> set (stuckCounter c)" for x
  proof (rule increment_exact)
    show "x \<le> STUCK_SENSOR_COUNT" using mem assms(3) by simp
    show "STUCK_SENSOR_COUNT \<le> 600"
      by (simp add: STUCK_SENSOR_COUNT_def STUCK_SENSOR_TIMEOUT_MSEC_def
          CAPSENSE_TOTAL_SCAN_TIME_MSEC_def)
  qed
  ultimately show ?thesis
    by (simp add: checkSensor_final[OF assms(1)])
qed

theorem counters_stay_bounded_witness:
  "\<exists>r c' log.
     checkSensor (twoWidgets widgetA widgetB \<lparr>diff = 50, status = 1\<rparr> \<lparr>diff = 210, status = 0\<rparr>)
       ALL_SENSORS True \<lparr>noMansLandCounter = [0, 0], stuckCounter = [0, 0]\<rparr> = Some (r, c', log) \<and>
     (\<forall>x \<in> set (noMansLandCounter c'). x \<le> NO_MANS_LAND_COUNT) \<and>
     (\<forall>x \<in> set (stuckCounter c'). x \<le> STUCK_SENSOR_COUNT) \<and>
     (\<forall>x \<in> set [0, 0 :: 32 word]. unat (x + 1) = unat x + 1) \<and>
     (\<forall>x \<in> set [0, 0 :: 32 word]. unat (x + 1) = unat x + 1)"
proof -
  let ?cs = "twoWidgets widgetA widgetB \<lparr>diff = 50, status = 1\<rparr> \<lparr>diff = 210, status = 0\<rparr>"
  let ?c = "\<lparr>noMansLandCounter = [0, 0], stuckCounter = [0, 0]\<rparr>"
  have h1: "wellFormed ?cs ?c" by (rule twoWidgets_wellFormed)
  have h2: "\<forall>x \<in> set (noMansLandCounter ?c). x \<le> NO_MANS_LAND_COUNT" by simp
  have h3: "\<forall>x \<in> set (stuckCounter ?c). x \<le> STUCK_SENSOR_COUNT" by simp
  show ?thesis
    using counters_stay_bounded[OF h1 h2 h3, of ALL_SENSORS True] by simp
qed

subsection \<open>One baseline reset per tripped rule\<close>

text \<open>
  C10. With \<open>resetBaseline = true\<close>, a selected sensor that trips several rules in
  one call is to get one baseline reset per tripped rule (up to three in one call,
  nothing is merged), while its bit in the returned mask is simply set. The code
  requests one reset per test that fires (\<open>resets_match_tests_that_fire\<close>), but the
  tests of every sensor use the first widget's thresholds. With the two widgets of the
  scenario in the other order, the sensor of the second widget (FT = 100) at 250,
  touched, with its stuck counter at \<open>STUCK_SENSOR_COUNT\<close>, trips the hyper event rule
  and the stuck rule, and the call requests a single reset.
\<close>

theorem two_rules_tripped_one_reset:
  "checkSensor (twoWidgets widgetB widgetA \<lparr>diff = 0, status = 0\<rparr> \<lparr>diff = 250, status = 1\<rparr>)
     ALL_SENSORS True \<lparr>noMansLandCounter = [0, 0], stuckCounter = [0, 600]\<rparr> =
   Some (2, \<lparr>noMansLandCounter = [0, 0], stuckCounter = [0, 0]\<rparr>, [(1, 0)])
   \<and> hyperEvent widgetA \<lparr>diff = 250, status = 1\<rparr>
   \<and> stuckTrips \<lparr>diff = 250, status = 1\<rparr> 600
   \<and> tripCount widgetA \<lparr>diff = 250, status = 1\<rparr> 0 600 = 2"
  by (simp add: unfold_call unfold_rules)

end
